theory Spec2Isabelle
  imports Complex_Main
begin

section \<open>Data model (backend/app/models/types.py)\<close>

text \<open>
  Python's unbounded \<open>int\<close> is \<open>int\<close>, a \<open>str\<close> is a \<open>string\<close>, a dictionary with string keys
  is an association list in insertion order. A \<open>datetime\<close> is timezone-naive (a reading of
  a wall clock) or timezone-aware (an instant); each is given by its position on its own
  scale. A \<open>Message\<close> accepts both kinds.
\<close>

datatype datetime = Naive int | Aware int

datatype MessageType = THOUGHT | ACTION | OBSERVATION | DELEGATION | RESPONSE | SYSTEM

fun MessageType_value :: "MessageType \<Rightarrow> string" where
  "MessageType_value THOUGHT = ''thought''"
| "MessageType_value ACTION = ''action''"
| "MessageType_value OBSERVATION = ''observation''"
| "MessageType_value DELEGATION = ''delegation''"
| "MessageType_value RESPONSE = ''response''"
| "MessageType_value SYSTEM = ''system''"

text \<open>The intent labels; \<open>INTENT_DELEGATION\<close> is \<open>IntentLabel.DELEGATION\<close>.\<close>

datatype IntentLabel =
  INTENT_DELEGATION | INFORMATION_REQUEST | INFORMATION_RESPONSE | FEEDBACK | COORDINATION
  | UNKNOWN

record Message =
  step_index :: int
  timestamp :: datetime
  sender :: string
  receiver :: "string option"
  message_type :: MessageType
  content :: string
  metadata :: "(string \<times> string) list"

record Interaction =
  i_step_index :: int
  i_timestamp :: datetime
  intent :: IntentLabel
  message_id :: "int option"
  i_metadata :: "(string \<times> string) list"

record EdgeData =
  source :: string
  target :: string
  interactions :: "Interaction list"
  weight :: int

record NodeData =
  node_id :: string
  label :: string
  message_count :: int
  messages_sent :: int
  messages_received :: int
  first_appearance :: "datetime option"
  last_activity :: "datetime option"
  n_metadata :: "(string \<times> string) list"

record GraphSnapshot =
  nodes :: "NodeData list"
  edges :: "EdgeData list"
  current_step :: "int option"
  total_steps :: int
  s_metadata :: "(string \<times> int) list"

datatype error = ValueError string | KeyError string | ValidationError | TypeError string

text \<open>
  The order of two datetimes, \<open>b > a\<close>: two naive or two aware ones are compared, a naive
  against an aware one raises TypeError. \<open>max(a, b)\<close> is \<open>b\<close> where \<open>b > a\<close>, else \<open>a\<close>.
\<close>

definition datetime_gt :: "datetime \<Rightarrow> datetime \<Rightarrow> error + bool" where
  "datetime_gt b a =
     (case (b, a) of
        (Naive y, Naive x) \<Rightarrow> Inr (y > x)
      | (Aware y, Aware x) \<Rightarrow> Inr (y > x)
      | _ \<Rightarrow> Inl (TypeError ''can't compare offset-naive and offset-aware datetimes''))"

definition py_max :: "datetime \<Rightarrow> datetime \<Rightarrow> error + datetime" where
  "py_max a b = (case datetime_gt b a of Inl e \<Rightarrow> Inl e | Inr c \<Rightarrow> Inr (if c then b else a))"



section \<open>The graph library as the builder uses it (networkx.DiGraph)\<close>

text \<open>
  The dictionary of node attributes that \<open>_add_or_update_node\<close> fills: the keys
  \<open>id\<close>, \<open>label\<close>, \<open>message_count\<close>, \<open>first_appearance\<close>, \<open>last_activity\<close>, \<open>metadata\<close>.
\<close>

record NodeAttrs =
  a_id :: string
  a_label :: string
  a_message_count :: int
  a_first_appearance :: datetime
  a_last_activity :: datetime
  a_metadata :: "(string \<times> string) list"

text \<open>
  The attribute dictionary of an edge: the keys \<open>interactions\<close>, \<open>weight\<close>, \<open>source\<close>,
  \<open>target\<close>. The value under \<open>interactions\<close> is a Python list, a mutable object that a
  copy of the graph shares with the original: it is a reference into the store of list
  objects (a new list is appended to the store, and every reference that a graph of a
  built model holds is below the length of the store, see \<open>wf_graph\<close>). Interaction
  objects are never mutated and are kept by value.
\<close>

type_synonym ref = nat

type_synonym heap = "Interaction list list"

record EdgeAttrs =
  e_interactions :: ref
  e_weight :: int
  e_source :: string
  e_target :: string

text \<open>
  A directed graph: for each node, in insertion order, its attribute dictionary
  (\<open>None\<close> is the empty dictionary that \<open>add_node\<close> creates) and its successor dictionary,
  in insertion order. The predecessor dictionary of the library mirrors the successors.
\<close>

type_synonym adjacency = "(string \<times> EdgeAttrs) list"

type_synonym DiGraph = "(string \<times> NodeAttrs option \<times> adjacency) list"

definition nx_nodes :: "DiGraph \<Rightarrow> string list" where
  "nx_nodes g = map fst g"

definition nx_has_node :: "DiGraph \<Rightarrow> string \<Rightarrow> bool" where
  "nx_has_node g n = (n \<in> set (nx_nodes g))"

definition nx_add_node :: "string \<Rightarrow> DiGraph \<Rightarrow> DiGraph" where
  "nx_add_node n g = (if nx_has_node g n then g else g @ [(n, None, [])])"

text \<open>\<open>G.nodes[n].update(attrs)\<close> for a node of the graph.\<close>

definition nx_update_node_attrs :: "string \<Rightarrow> NodeAttrs \<Rightarrow> DiGraph \<Rightarrow> DiGraph" where
  "nx_update_node_attrs n attrs g =
     map (\<lambda>(k, a, adj). if k = n then (k, Some attrs, adj) else (k, a, adj)) g"

text \<open>\<open>G.edges(data=True)\<close>: by source node in node order, then by successor.\<close>

definition nx_edges :: "DiGraph \<Rightarrow> (string \<times> string \<times> EdgeAttrs) list" where
  "nx_edges g = concat (map (\<lambda>(u, a, adj). map (\<lambda>(v, d). (u, v, d)) adj) g)"

text \<open>\<open>G[u][v]\<close> where the edge exists; \<open>G.has_edge(u, v)\<close> says whether it does.\<close>

definition nx_get_edge :: "DiGraph \<Rightarrow> string \<Rightarrow> string \<Rightarrow> EdgeAttrs option" where
  "nx_get_edge g u v = (case map_of g u of None \<Rightarrow> None | Some (a, adj) \<Rightarrow> map_of adj v)"

definition nx_has_edge :: "DiGraph \<Rightarrow> string \<Rightarrow> string \<Rightarrow> bool" where
  "nx_has_edge g u v = (nx_get_edge g u v \<noteq> None)"

text \<open>Assigning the attribute dictionary of the edge \<open>(u, v)\<close>, where it exists.\<close>

definition nx_set_edge :: "string \<Rightarrow> string \<Rightarrow> EdgeAttrs \<Rightarrow> DiGraph \<Rightarrow> DiGraph" where
  "nx_set_edge u v d g =
     map (\<lambda>(n, a, adj).
            if n = u then (n, a, map (\<lambda>(w, e). if w = v then (w, d) else (w, e)) adj)
            else (n, a, adj)) g"

text \<open>
  \<open>G.add_edge(u, v, **attr)\<close>: both end points become nodes, then the edge's dictionary
  is created, or updated with \<open>attr\<close> (here \<open>attr\<close> always gives all four keys).
\<close>

definition nx_add_edge :: "string \<Rightarrow> string \<Rightarrow> EdgeAttrs \<Rightarrow> DiGraph \<Rightarrow> DiGraph" where
  "nx_add_edge u v attr g =
     (let g1 = nx_add_node v (nx_add_node u g)
      in if nx_has_edge g1 u v then nx_set_edge u v attr g1
         else map (\<lambda>(n, a, adj). if n = u then (n, a, adj @ [(v, attr)]) else (n, a, adj)) g1)"

definition nx_remove_edge :: "string \<Rightarrow> string \<Rightarrow> DiGraph \<Rightarrow> DiGraph" where
  "nx_remove_edge u v g =
     map (\<lambda>(n, a, adj). if n = u then (n, a, filter (\<lambda>(w, e). w \<noteq> v) adj) else (n, a, adj)) g"

text \<open>
  \<open>G.copy()\<close> is the library's independent shallow copy: a new graph with a new attribute
  dictionary for every node and edge, holding the same values. The dictionaries are values
  here, so the copy is the same value; the lists the edge dictionaries refer to are shared.
\<close>

definition nx_copy :: "DiGraph \<Rightarrow> DiGraph" where
  "nx_copy g = g"

definition nx_out_degree :: "DiGraph \<Rightarrow> string \<Rightarrow> nat" where
  "nx_out_degree g n = (case map_of g n of None \<Rightarrow> 0 | Some (a, adj) \<Rightarrow> length adj)"

definition nx_in_degree :: "DiGraph \<Rightarrow> string \<Rightarrow> nat" where
  "nx_in_degree g n = length (filter (\<lambda>(u, a, adj). n \<in> set (map fst adj)) g)"

text \<open>The degree of a node of a directed graph: in-degree plus out-degree.\<close>

definition nx_degree :: "DiGraph \<Rightarrow> string \<Rightarrow> nat" where
  "nx_degree g n = nx_in_degree g n + nx_out_degree g n"

definition nx_isolates :: "DiGraph \<Rightarrow> string list" where
  "nx_isolates g = filter (\<lambda>n. nx_degree g n = 0) (nx_nodes g)"

definition nx_remove_node :: "string \<Rightarrow> DiGraph \<Rightarrow> DiGraph" where
  "nx_remove_node n g =
     map (\<lambda>(k, a, adj). (k, a, filter (\<lambda>(w, e). w \<noteq> n) adj)) (filter (\<lambda>(k, a, adj). k \<noteq> n) g)"

definition nx_remove_nodes_from :: "string list \<Rightarrow> DiGraph \<Rightarrow> DiGraph" where
  "nx_remove_nodes_from ns g = fold nx_remove_node ns g"

definition nx_number_of_nodes :: "DiGraph \<Rightarrow> nat" where
  "nx_number_of_nodes g = length g"









section \<open>GraphBuilder (backend/app/services/graph_builder.py)\<close>

text \<open>
  The builder object with its two fields; every function takes the builder and the store
  of list objects and returns what it changes.
\<close>

record GraphBuilder =
  graph :: "DiGraph option"
  messages :: "Message list"

definition GraphBuilder_init :: GraphBuilder where
  "GraphBuilder_init = \<lparr>graph = None, messages = []\<rparr>"

type_synonym node_metadata = "(string \<times> NodeAttrs) list"

definition type_to_intent :: "(string \<times> IntentLabel) list" where
  "type_to_intent =
     [(''delegation'', INTENT_DELEGATION), (''action'', COORDINATION),
      (''response'', INFORMATION_RESPONSE), (''feedback'', FEEDBACK)]"

definition infer_intent :: "Message \<Rightarrow> IntentLabel" where
  "infer_intent message =
     (case map_of type_to_intent (MessageType_value (message_type message)) of
        Some l \<Rightarrow> l
      | None \<Rightarrow> UNKNOWN)"

text \<open>
  \<open>_add_or_update_node\<close>. It returns the error that \<open>max\<close> raises, if it does, with the
  dictionary and the graph as they are then.
\<close>

definition add_or_update_node ::
  "string \<Rightarrow> Message \<Rightarrow> node_metadata \<times> DiGraph \<Rightarrow> error option \<times> node_metadata \<times> DiGraph" where
  "add_or_update_node nid message st =
     (case st of (nm, g) \<Rightarrow>
        let (nm1, g1) =
              (if nid \<notin> set (map fst nm)
               then (nm @ [(nid, \<lparr>a_id = nid, a_label = nid, a_message_count = 0,
                                  a_first_appearance = timestamp message,
                                  a_last_activity = timestamp message, a_metadata = []\<rparr>)],
                     nx_add_node nid g)
               else (nm, g))
        in if sender message = nid
           then
             let nm2 = map (\<lambda>(k, d). if k = nid
                                        then (k, d\<lparr>a_message_count := a_message_count d + 1\<rparr>)
                                        else (k, d)) nm1
             in (case py_max (a_last_activity (the (map_of nm2 nid))) (timestamp message) of
                   Inl e \<Rightarrow> (Some e, nm2, g1)
                 | Inr t \<Rightarrow>
                     (None, map (\<lambda>(k, d). if k = nid then (k, d\<lparr>a_last_activity := t\<rparr>)
                                            else (k, d)) nm2, g1))
           else (None, nm1, g1))"

definition add_interaction :: "Message \<Rightarrow> DiGraph \<times> heap \<Rightarrow> DiGraph \<times> heap" where
  "add_interaction message st =
     (case st of (g, h) \<Rightarrow>
        (case receiver message of
           None \<Rightarrow> (g, h)
         | Some r \<Rightarrow>
             if r = [] then (g, h)
             else
               let interaction =
                     \<lparr>i_step_index = step_index message, i_timestamp = timestamp message,
                      intent = infer_intent message, message_id = Some (step_index message),
                      i_metadata = [(''message_type'', MessageType_value (message_type message)),
                                    (''content_preview'', take 100 (content message))]\<rparr>
               in (case nx_get_edge g (sender message) r of
                     Some d \<Rightarrow>
                       (nx_set_edge (sender message) r (d\<lparr>e_weight := e_weight d + 1\<rparr>) g,
                        h[e_interactions d := h ! e_interactions d @ [interaction]])
                   | None \<Rightarrow>
                       (nx_add_edge (sender message) r
                          \<lparr>e_interactions = length h, e_weight = 1,
                           e_source = sender message, e_target = r\<rparr> g,
                        h @ [[interaction]]))))"

text \<open>The body of the loop of \<open>build_graph\<close>, for one message, and the loop.\<close>

definition build_step ::
  "Message \<Rightarrow> node_metadata \<times> DiGraph \<times> heap
     \<Rightarrow> error option \<times> node_metadata \<times> DiGraph \<times> heap" where
  "build_step message st =
     (case st of (nm, g, h) \<Rightarrow>
        (case add_or_update_node (sender message) message (nm, g) of
           (Some e, nm1, g1) \<Rightarrow> (Some e, nm1, g1, h)
         | (None, nm1, g1) \<Rightarrow>
             (case receiver message of
                None \<Rightarrow> (None, nm1, g1, h)
              | Some r \<Rightarrow>
                  if r = [] then (None, nm1, g1, h)
                  else
                    (case add_or_update_node r message (nm1, g1) of
                       (Some e, nm2, g2) \<Rightarrow> (Some e, nm2, g2, h)
                     | (None, nm2, g2) \<Rightarrow>
                         let (g3, h3) = add_interaction message (g2, h)
                         in (None, nm2, g3, h3)))))"

fun build_loop ::
  "Message list \<Rightarrow> node_metadata \<times> DiGraph \<times> heap
     \<Rightarrow> error option \<times> node_metadata \<times> DiGraph \<times> heap" where
  "build_loop [] st = (None, st)"
| "build_loop (message # rest) st =
     (case build_step message st of
        (Some e, st') \<Rightarrow> (Some e, st')
      | (None, st') \<Rightarrow> build_loop rest st')"

text \<open>
  The last loop of \<open>build_graph\<close>: \<open>self.graph.nodes[node_id].update(metadata)\<close> for every
  entry; \<open>G.nodes[n]\<close> raises KeyError where \<open>n\<close> is no node.
\<close>

fun attach_node_metadata :: "node_metadata \<Rightarrow> DiGraph \<Rightarrow> error option \<times> DiGraph" where
  "attach_node_metadata [] g = (None, g)"
| "attach_node_metadata ((nid, md) # rest) g =
     (if nx_has_node g nid then attach_node_metadata rest (nx_update_node_attrs nid md g)
      else (Some (KeyError nid), g))"

definition build_graph ::
  "Message list \<Rightarrow> GraphBuilder \<times> heap \<Rightarrow> (error + DiGraph) \<times> GraphBuilder \<times> heap" where
  "build_graph msgs st =
     (case st of (self, h) \<Rightarrow>
        if msgs = [] then (Inl (ValueError ''Cannot build graph from empty message list''), self, h)
        else
          let sorted_msgs = sort_key step_index msgs
          in (case build_loop sorted_msgs ([], [], h) of
                (Some e, nm, g, h1) \<Rightarrow>
                  (Inl e, self\<lparr>graph := Some g, messages := sorted_msgs\<rparr>, h1)
              | (None, nm, g, h1) \<Rightarrow>
                  let (err, g2) = attach_node_metadata nm g;
                      self1 = self\<lparr>graph := Some g2, messages := sorted_msgs\<rparr>
                  in (case err of Some e \<Rightarrow> (Inl e, self1, h1) | None \<Rightarrow> (Inr g2, self1, h1))))"

text \<open>The loop over the edges of the copy in \<open>filter_graph_by_step\<close>.\<close>

fun filter_loop ::
  "int \<Rightarrow> (string \<times> string \<times> EdgeAttrs) list \<Rightarrow> DiGraph \<times> heap \<times> (string \<times> string) list
     \<Rightarrow> DiGraph \<times> heap \<times> (string \<times> string) list" where
  "filter_loop max_step [] st = st"
| "filter_loop max_step ((u, v, data) # es) (filtered, h, edges_to_remove) =
     (let kept = filter (\<lambda>i. i_step_index i \<le> max_step) (h ! e_interactions data);
          h1 = h @ [kept]
      in if kept \<noteq> []
         then filter_loop max_step es
                (nx_set_edge u v (data\<lparr>e_interactions := length h, e_weight := int (length kept)\<rparr>)
                   filtered, h1, edges_to_remove)
         else filter_loop max_step es (filtered, h1, edges_to_remove @ [(u, v)]))"

text \<open>\<open>not self.graph\<close>: the field is None, or the graph has no node.\<close>

definition no_graph :: "GraphBuilder \<Rightarrow> bool" where
  "no_graph self = (case graph self of None \<Rightarrow> True | Some g \<Rightarrow> nx_number_of_nodes g = 0)"

definition filter_graph_by_step ::
  "int \<Rightarrow> GraphBuilder \<times> heap \<Rightarrow> (error + DiGraph) \<times> heap" where
  "filter_graph_by_step max_step st =
     (case st of (self, h) \<Rightarrow>
        if no_graph self then (Inl (ValueError ''No graph built yet. Call build_graph() first.''), h)
        else
          let filtered = nx_copy (the (graph self));
              (filtered1, h1, edges_to_remove) =
                 filter_loop max_step (nx_edges filtered) (filtered, h, []);
              filtered2 = fold (\<lambda>(u, v). nx_remove_edge u v) edges_to_remove filtered1;
              isolated_nodes = nx_isolates filtered2
          in (Inr (nx_remove_nodes_from isolated_nodes filtered2), h1))"

text \<open>\<open>NodeData(**node_data_dict)\<close>: the fields the dictionary lacks take their defaults.\<close>

definition NodeData_of :: "NodeAttrs option \<Rightarrow> error + NodeData" where
  "NodeData_of a =
     (case a of
        None \<Rightarrow> Inl ValidationError
      | Some d \<Rightarrow>
          Inr \<lparr>node_id = a_id d, label = a_label d, message_count = a_message_count d,
               messages_sent = 0, messages_received = 0,
               first_appearance = Some (a_first_appearance d),
               last_activity = Some (a_last_activity d), n_metadata = a_metadata d\<rparr>)"

fun convert_nodes :: "DiGraph \<Rightarrow> error + NodeData list" where
  "convert_nodes [] = Inr []"
| "convert_nodes ((n, a, adj) # g) =
     (case NodeData_of a of
        Inl e \<Rightarrow> Inl e
      | Inr nd \<Rightarrow> (case convert_nodes g of Inl e \<Rightarrow> Inl e | Inr nds \<Rightarrow> Inr (nd # nds)))"

definition convert_edges :: "heap \<Rightarrow> DiGraph \<Rightarrow> EdgeData list" where
  "convert_edges h g =
     map (\<lambda>(u, v, data). \<lparr>source = e_source data, target = e_target data,
                          interactions = h ! e_interactions data, weight = e_weight data\<rparr>)
       (nx_edges g)"

text \<open>\<open>if max_step\<close>: the argument is given and is not 0.\<close>

definition truthy :: "int option \<Rightarrow> bool" where
  "truthy max_step = (case max_step of None \<Rightarrow> False | Some k \<Rightarrow> k \<noteq> 0)"

definition to_graph_snapshot ::
  "int option \<Rightarrow> GraphBuilder \<times> heap \<Rightarrow> (error + GraphSnapshot) \<times> heap" where
  "to_graph_snapshot max_step st =
     (case st of (self, h) \<Rightarrow>
        if no_graph self then (Inl (ValueError ''No graph built yet. Call build_graph() first.''), h)
        else
          let (r, h1) = (if truthy max_step then filter_graph_by_step (the max_step) (self, h)
                         else (Inr (the (graph self)), h))
          in (case r of
                Inl e \<Rightarrow> (Inl e, h1)
              | Inr graph_to_use \<Rightarrow>
                  (case convert_nodes graph_to_use of
                     Inl e \<Rightarrow> (Inl e, h1)
                   | Inr ns \<Rightarrow>
                       let es = convert_edges h1 graph_to_use;
                           total = (if messages self \<noteq> []
                                    then Max (set (map step_index (messages self))) else 0)
                       in (Inr \<lparr>nodes = ns, edges = es, current_step = max_step,
                                 total_steps = total,
                                 s_metadata = [(''node_count'', int (length ns)),
                                               (''edge_count'', int (length es)),
                                               (''message_count'', int (length (messages self)))]\<rparr>,
                           h1))))"



section \<open>Observations and invariants\<close>

definition edge_data :: "heap \<Rightarrow> EdgeAttrs \<Rightarrow> EdgeData" where
  "edge_data h data = \<lparr>source = e_source data, target = e_target data,
                        interactions = h ! e_interactions data, weight = e_weight data\<rparr>"

definition edge_keys :: "DiGraph \<Rightarrow> (string \<times> string) list" where
  "edge_keys g = map (\<lambda>(u, v, d). (u, v)) (nx_edges g)"

definition edge_view :: "heap \<Rightarrow> DiGraph \<Rightarrow> (string \<times> string \<times> EdgeData) list" where
  "edge_view h g = map (\<lambda>(u, v, d). (u, v, edge_data h d)) (nx_edges g)"

definition upto_step :: "int \<Rightarrow> Interaction list \<Rightarrow> Interaction list" where
  "upto_step k xs = filter (\<lambda>i. i_step_index i \<le> k) xs"

definition restrict_edge :: "int \<Rightarrow> EdgeData \<Rightarrow> EdgeData" where
  "restrict_edge k e = e\<lparr>interactions := upto_step k (interactions e),
                         weight := int (length (upto_step k (interactions e)))\<rparr>"

definition loop_upd ::
  "int \<Rightarrow> (string \<times> string) set \<Rightarrow> string \<times> string \<times> EdgeData \<Rightarrow> string \<times> string \<times> EdgeData" where
  "loop_upd k ks = (\<lambda>(u, v, e). if (u, v) \<in> ks \<and> upto_step k (interactions e) \<noteq> []
                                  then (u, v, restrict_edge k e) else (u, v, e))"

definition refs_below :: "nat \<Rightarrow> DiGraph \<Rightarrow> bool" where
  "refs_below n g = (\<forall>(u, v, d) \<in> set (nx_edges g). e_interactions d < n)"

definition wf_graph :: "heap \<Rightarrow> DiGraph \<Rightarrow> bool" where
  "wf_graph h g \<longleftrightarrow> distinct (nx_nodes g) \<and> distinct (edge_keys g) \<and> refs_below (length h) g"

definition struct_ok :: "DiGraph \<Rightarrow> bool" where
  "struct_ok g \<longleftrightarrow> distinct (nx_nodes g) \<and> (\<forall>(n, a, adj) \<in> set g. distinct (map fst adj))"

text \<open>The labels that the lookup table of \<open>_infer_intent\<close> and its default can give.\<close>

definition produced_intents :: "IntentLabel set" where
  "produced_intents = {INTENT_DELEGATION, COORDINATION, INFORMATION_RESPONSE, FEEDBACK, UNKNOWN}"

definition edge_ok :: "heap \<Rightarrow> string \<times> string \<times> EdgeAttrs \<Rightarrow> bool" where
  "edge_ok h = (\<lambda>(u, v, d). e_interactions d < length h
                  \<and> e_weight d = int (length (h ! e_interactions d))
                  \<and> h ! e_interactions d \<noteq> [] \<and> e_source d = u \<and> e_target d = v
                  \<and> (\<forall>i \<in> set (h ! e_interactions d). intent i \<in> produced_intents))"

definition heap_ok :: "heap \<Rightarrow> DiGraph \<Rightarrow> bool" where
  "heap_ok h g \<longleftrightarrow> (\<forall>x \<in> set (nx_edges g). edge_ok h x)
                   \<and> inj_on (\<lambda>(u, v, d). e_interactions d) (set (nx_edges g))"

text \<open>Appending a new successor to a node of the graph adds exactly that edge.\<close>

definition add_succ :: "string \<Rightarrow> string \<Rightarrow> EdgeAttrs \<Rightarrow> DiGraph \<Rightarrow> DiGraph" where
  "add_succ u v attr g = map (\<lambda>(n, a, adj). if n = u then (n, a, adj @ [(v, attr)]) else (n, a, adj)) g"

definition build_inv :: "node_metadata \<times> DiGraph \<times> heap \<Rightarrow> bool" where
  "build_inv st = (case st of (nm, g, h) \<Rightarrow>
      set (map fst nm) = set (nx_nodes g) \<and> struct_ok g \<and> heap_ok h g)"

text \<open>What a successful build leaves behind.\<close>

definition built :: "GraphBuilder \<times> heap \<Rightarrow> DiGraph \<Rightarrow> bool" where
  "built st g = (case st of (self, h) \<Rightarrow>
      graph self = Some g \<and> g \<noteq> [] \<and> wf_graph h g \<and> heap_ok h g)"

text \<open>
  A built model: the builder and the store after a successful \<open>build_graph\<close>, and after
  any number of the queries that follow it.
\<close>

inductive built_model :: "GraphBuilder \<times> heap \<Rightarrow> bool" where
  after_build:
    "build_graph msgs (self0, h0) = (Inr g, self, h) \<Longrightarrow> built_model (self, h)"
| after_filter:
    "built_model (self, h) \<Longrightarrow> filter_graph_by_step k (self, h) = (r, h') \<Longrightarrow> built_model (self, h')"
| after_snapshot:
    "built_model (self, h) \<Longrightarrow> to_graph_snapshot ms (self, h) = (r, h') \<Longrightarrow> built_model (self, h')"

section \<open>Example logs\<close>

text \<open>
  Scenario A: A delegates to B at step 0, B answers A at steps 1 and 2, A delegates to C
  at step 3.
\<close>

definition scenario_A :: "Message list" where
  "scenario_A =
     [\<lparr>step_index = 0, timestamp = Naive 100, sender = ''A'', receiver = Some ''B'',
       message_type = DELEGATION, content = ''plan'', metadata = []\<rparr>,
      \<lparr>step_index = 1, timestamp = Naive 101, sender = ''B'', receiver = Some ''A'',
       message_type = RESPONSE, content = ''draft'', metadata = []\<rparr>,
      \<lparr>step_index = 2, timestamp = Naive 102, sender = ''B'', receiver = Some ''A'',
       message_type = RESPONSE, content = ''final'', metadata = []\<rparr>,
      \<lparr>step_index = 3, timestamp = Naive 103, sender = ''A'', receiver = Some ''C'',
       message_type = DELEGATION, content = ''review'', metadata = []\<rparr>]"

text \<open>A log of one message from A to B, and a log of one broadcast of A.\<close>

definition one_message :: "Message list" where
  "one_message =
     [\<lparr>step_index = 0, timestamp = Naive 100, sender = ''A'', receiver = Some ''B'',
       message_type = DELEGATION, content = ''plan'', metadata = []\<rparr>]"





text \<open>The builder and the store after building a log with a new builder.\<close>

definition built_state :: "Message list \<Rightarrow> GraphBuilder \<times> heap" where
  "built_state msgs = snd (build_graph msgs (GraphBuilder_init, []))"

text \<open>The edges of a graph, each with the list of interactions its dictionary refers to.\<close>

definition edge_list :: "heap \<Rightarrow> DiGraph \<Rightarrow> (string \<times> string \<times> Interaction list) list" where
  "edge_list h g = map (\<lambda>(u, v, d). (u, v, h ! e_interactions d)) (nx_edges g)"

text \<open>
  The nodes of a graph with their attribute dictionaries; \<open>attrs_ok\<close>: every dictionary
  has been filled.
\<close>

definition node_attrs :: "DiGraph \<Rightarrow> (string \<times> NodeAttrs option) list" where
  "node_attrs g = map (\<lambda>(n, a, adj). (n, a)) g"

definition attrs_ok :: "DiGraph \<Rightarrow> bool" where
  "attrs_ok g = (None \<notin> snd ` set (node_attrs g))"

text \<open>A log of one message that A sends to itself.\<close>

definition one_self_message :: "Message list" where
  "one_self_message =
     [\<lparr>step_index = 0, timestamp = Naive 100, sender = ''A'', receiver = Some ''A'',
       message_type = THOUGHT, content = ''note'', metadata = []\<rparr>]"

text \<open>The messages of a log up to a step.\<close>

definition messages_upto :: "int \<Rightarrow> Message list \<Rightarrow> Message list" where
  "messages_upto k ms = filter (\<lambda>m. step_index m \<le> k) ms"


section \<open>Lemmas about the graph library\<close>

lemma nx_edges_Nil [simp]: "nx_edges [] = []"
  by (simp add: nx_edges_def)

lemma nx_edges_Cons:
  "nx_edges ((n, a, adj) # g) = map (\<lambda>(v, d). (n, v, d)) adj @ nx_edges g"
  by (simp add: nx_edges_def)

lemma nx_edges_append: "nx_edges (g @ g') = nx_edges g @ nx_edges g'"
  by (simp add: nx_edges_def)

lemma nx_set_edge_Cons:
  "nx_set_edge u v d ((n, a, adj) # g) =
     (n, a, if n = u then map (\<lambda>(w, e). if w = v then (w, d) else (w, e)) adj else adj)
       # nx_set_edge u v d g"
  by (simp add: nx_set_edge_def)

lemma nx_edges_set_edge:
  "nx_edges (nx_set_edge u v d g) =
     map (\<lambda>(n, w, e). if n = u \<and> w = v then (n, w, d) else (n, w, e)) (nx_edges g)"
proof (induction g)
  case Nil
  show ?case by (simp add: nx_set_edge_def)
next
  case (Cons x g)
  obtain n a adj where x: "x = (n, a, adj)" by (cases x)
  have inner: "map (\<lambda>(w, d). (n, w, d))
                 (if n = u then map (\<lambda>(w, e). if w = v then (w, d) else (w, e)) adj else adj) =
      map (\<lambda>(n, w, e). if n = u \<and> w = v then (n, w, d) else (n, w, e))
        (map (\<lambda>(w, d). (n, w, d)) adj)"
    by (induction adj) auto
  show ?case
    unfolding x nx_set_edge_Cons nx_edges_Cons inner Cons.IH by simp
qed

lemma nx_nodes_set_edge [simp]: "nx_nodes (nx_set_edge u v d g) = nx_nodes g"
  by (induction g) (auto simp: nx_set_edge_def nx_nodes_def)

lemma edge_keys_set_edge [simp]: "edge_keys (nx_set_edge u v d g) = edge_keys g"
  by (auto simp: edge_keys_def nx_edges_set_edge)

lemma nx_remove_edge_Cons:
  "nx_remove_edge u v ((n, a, adj) # g) =
     (n, a, if n = u then filter (\<lambda>(w, e). w \<noteq> v) adj else adj) # nx_remove_edge u v g"
  by (simp add: nx_remove_edge_def)

lemma nx_edges_remove_edge:
  "nx_edges (nx_remove_edge u v g) = filter (\<lambda>(n, w, e). \<not> (n = u \<and> w = v)) (nx_edges g)"
proof (induction g)
  case Nil
  show ?case by (simp add: nx_remove_edge_def)
next
  case (Cons x g)
  obtain n a adj where x: "x = (n, a, adj)" by (cases x)
  have inner: "map (\<lambda>(w, d). (n, w, d)) (if n = u then filter (\<lambda>(w, e). w \<noteq> v) adj else adj) =
      filter (\<lambda>(n', w, e). \<not> (n' = u \<and> w = v)) (map (\<lambda>(w, d). (n, w, d)) adj)"
    by (induction adj) auto
  show ?case
    unfolding x nx_remove_edge_Cons nx_edges_Cons inner Cons.IH by simp
qed

lemma nx_nodes_remove_edge [simp]: "nx_nodes (nx_remove_edge u v g) = nx_nodes g"
  by (induction g) (auto simp: nx_remove_edge_def nx_nodes_def)

lemma nx_edges_remove_edges:
  "nx_edges (fold (\<lambda>(u, v). nx_remove_edge u v) rm g) =
     filter (\<lambda>(n, w, e). (n, w) \<notin> set rm) (nx_edges g)"
proof (induction rm arbitrary: g)
  case Nil
  show ?case by simp
next
  case (Cons x rm)
  obtain u v where x: "x = (u, v)" by (cases x)
  show ?case
    by (simp add: x Cons.IH nx_edges_remove_edge) (rule filter_cong, auto)
qed

lemma nx_nodes_remove_edges [simp]:
  "nx_nodes (fold (\<lambda>(u, v). nx_remove_edge u v) rm g) = nx_nodes g"
  by (induction rm arbitrary: g) auto

lemma edge_keys_unique:
  assumes "distinct (edge_keys g)" "(u, v, d) \<in> set (nx_edges g)" "(u, v, e) \<in> set (nx_edges g)"
  shows "e = d"
proof -
  have "inj_on (\<lambda>(u, v, d). (u, v)) (set (nx_edges g))"
    using assms(1) by (simp add: edge_keys_def distinct_map)
  from inj_onD[OF this _ assms(3) assms(2)] show ?thesis by simp
qed

lemma edge_data_append:
  "e_interactions d < length h \<Longrightarrow> edge_data (h @ ext) d = edge_data h d"
  by (simp add: edge_data_def nth_append)

lemma edge_view_append:
  "refs_below (length h) g \<Longrightarrow> edge_view (h @ ext) g = edge_view h g"
  by (auto simp: edge_view_def refs_below_def edge_data_append)

lemma loop_upd_empty [simp]: "loop_upd k {} x = x"
  by (cases x) (simp add: loop_upd_def)

lemma filter_loop_view:
  assumes "filter_loop k es (g, h, rm) = (g', h', rm')"
    and "distinct (map (\<lambda>(u, v, d). (u, v)) es)"
    and "set es \<subseteq> set (nx_edges g)"
    and "distinct (edge_keys g)"
    and "refs_below (length h) g"
  shows "edge_view h' g' = map (loop_upd k (set (map (\<lambda>(u, v, d). (u, v)) es))) (edge_view h g)
       \<and> rm' = rm @ map (\<lambda>(u, v, d). (u, v))
                      (filter (\<lambda>(u, v, d). upto_step k (h ! e_interactions d) = []) es)
       \<and> nx_nodes g' = nx_nodes g \<and> edge_keys g' = edge_keys g
       \<and> take (length h) h' = h \<and> length h \<le> length h' \<and> refs_below (length h') g'"
  using assms
proof (induction es arbitrary: g h rm)
  case Nil
  then show ?case by (simp add: map_idI)
next
  case (Cons x es)
  obtain u v d where x: "x = (u, v, d)" by (cases x)
  define kept where "kept = upto_step k (h ! e_interactions d)"
  define h1 where "h1 = h @ [kept]"
  define d' where "d' = d\<lparr>e_interactions := length h, e_weight := int (length kept)\<rparr>"
  define ks where "ks = set (map (\<lambda>(u, v, d). (u, v)) es)"
  have uv_in: "(u, v, d) \<in> set (nx_edges g)" using Cons.prems(3) x by simp
  have uv_notin: "(u, v) \<notin> ks" using Cons.prems(2) x by (simp add: ks_def)
  have dist_es: "distinct (map (\<lambda>(u, v, d). (u, v)) es)" using Cons.prems(2) by simp
  have d_ref: "e_interactions d < length h"
    using Cons.prems(5) uv_in by (auto simp: refs_below_def)
  have rest_refs: "\<And>n w e. (n, w, e) \<in> set es \<Longrightarrow> h1 ! e_interactions e = h ! e_interactions e"
    using Cons.prems(3,5) by (auto simp: refs_below_def h1_def nth_append)
  have rm_eq: "filter (\<lambda>(u, v, d). upto_step k (h1 ! e_interactions d) = []) es =
               filter (\<lambda>(u, v, d). upto_step k (h ! e_interactions d) = []) es"
    by (rule filter_cong) (auto simp: rest_refs)
  show ?case
  proof (cases "kept = []")
    case True
    have step: "filter_loop k es (g, h1, rm @ [(u, v)]) = (g', h', rm')"
      using Cons.prems(1) True by (simp add: x kept_def h1_def upto_step_def)
    have refs1: "refs_below (length h1) g"
      using Cons.prems(5) by (auto simp: refs_below_def h1_def)
    have sub: "set es \<subseteq> set (nx_edges g)" using Cons.prems(3) by simp
    note IH = Cons.IH[OF step dist_es sub Cons.prems(4) refs1]
    have view1: "edge_view h1 g = edge_view h g"
      unfolding h1_def by (rule edge_view_append[OF Cons.prems(5)])
    have upd: "map (loop_upd k ks) (edge_view h g) = map (loop_upd k (insert (u, v) ks)) (edge_view h g)"
    proof (rule map_cong[OF refl])
      fix y assume "y \<in> set (edge_view h g)"
      then obtain n w e where y: "y = (n, w, edge_data h e)" and e: "(n, w, e) \<in> set (nx_edges g)"
        by (auto simp: edge_view_def)
      show "loop_upd k ks y = loop_upd k (insert (u, v) ks) y"
      proof (cases "(n, w) = (u, v)")
        case True
        then have "e = d" using edge_keys_unique[OF Cons.prems(4) uv_in] e by simp
        then have "upto_step k (interactions (edge_data h e)) = []"
          using \<open>kept = []\<close> by (simp add: kept_def edge_data_def)
        then show ?thesis by (simp add: y loop_upd_def)
      next
        case False
        then show ?thesis by (auto simp: y loop_upd_def)
      qed
    qed
    have take1: "take (length h) h' = h"
    proof -
      have "take (length h) h' = take (length h) (take (length h1) h')"
        by (simp add: h1_def min_def)
      also have "\<dots> = take (length h) h1" using IH by simp
      also have "\<dots> = h" by (simp add: h1_def)
      finally show ?thesis .
    qed
    have ksx: "set (map (\<lambda>(u, v, d). (u, v)) (x # es)) = insert (u, v) ks"
      by (simp add: x ks_def)
    have fx: "filter (\<lambda>(u, v, d). upto_step k (h ! e_interactions d) = []) (x # es) =
              x # filter (\<lambda>(u, v, d). upto_step k (h ! e_interactions d) = []) es"
      using True by (simp add: x kept_def)
    have c1: "edge_view h' g' = map (loop_upd k (insert (u, v) ks)) (edge_view h g)"
      using IH view1 upd by (simp add: ks_def)
    have c2: "rm' = rm @ map (\<lambda>(u, v, d). (u, v))
                      (x # filter (\<lambda>(u, v, d). upto_step k (h ! e_interactions d) = []) es)"
      using IH rm_eq by (simp add: x)
    have c3: "nx_nodes g' = nx_nodes g \<and> edge_keys g' = edge_keys g \<and> refs_below (length h') g'"
      using IH by simp
    have len: "length h \<le> length h'" using IH by (simp add: h1_def)
    show ?thesis
      unfolding ksx fx using c1 c2 c3 take1 len by simp
  next
    case False
    define g1 where "g1 = nx_set_edge u v d' g"
    have step: "filter_loop k es (g1, h1, rm) = (g', h', rm')"
      using Cons.prems(1) False
      by (simp add: x kept_def h1_def upto_step_def g1_def d'_def Let_def)
    have edges1: "nx_edges g1 =
        map (\<lambda>(n, w, e). if n = u \<and> w = v then (n, w, d') else (n, w, e)) (nx_edges g)"
      by (simp add: g1_def nx_edges_set_edge)
    have refs1: "refs_below (length h1) g1"
      using Cons.prems(5)
      by (fastforce simp: refs_below_def edges1 h1_def d'_def split: if_splits)
    have sub: "set es \<subseteq> set (nx_edges g1)"
    proof
      fix y assume y: "y \<in> set es"
      obtain n w e where yy: "y = (n, w, e)" by (cases y)
      have "(n, w) \<in> ks" using y yy by (force simp: ks_def)
      then have ne: "\<not> (n = u \<and> w = v)" using uv_notin by auto
      have "y \<in> set (nx_edges g)" using y Cons.prems(3) by auto
      then have "(\<lambda>(n, w, e). if n = u \<and> w = v then (n, w, d') else (n, w, e)) y \<in> set (nx_edges g1)"
        unfolding edges1 set_map by (rule imageI)
      then show "y \<in> set (nx_edges g1)" using ne by (simp add: yy)
    qed
    have keys1: "distinct (edge_keys g1)" using Cons.prems(4) by (simp add: g1_def)
    note IH = Cons.IH[OF step dist_es sub keys1 refs1]
    have view1: "edge_view h1 g1 = map (loop_upd k {(u, v)}) (edge_view h g)"
      unfolding edge_view_def edges1 map_map
    proof (rule map_cong[OF refl])
      fix y assume yin: "y \<in> set (nx_edges g)"
      obtain n w e where y: "y = (n, w, e)" by (cases y)
      have eref: "e_interactions e < length h"
        using Cons.prems(5) yin y by (auto simp: refs_below_def)
      show "((\<lambda>(u, v, d). (u, v, edge_data h1 d)) \<circ>
              (\<lambda>(n, w, e). if n = u \<and> w = v then (n, w, d') else (n, w, e))) y =
            (loop_upd k {(u, v)} \<circ> (\<lambda>(u, v, d). (u, v, edge_data h d))) y"
      proof (cases "(n, w) = (u, v)")
        case True
        then have ed: "e = d" using edge_keys_unique[OF Cons.prems(4) uv_in] yin y by simp
        have "edge_data h1 d' = restrict_edge k (edge_data h d)"
          by (simp add: edge_data_def restrict_edge_def d'_def h1_def kept_def)
        moreover have "upto_step k (interactions (edge_data h d)) \<noteq> []"
          using False by (simp add: kept_def edge_data_def)
        ultimately show ?thesis using True by (simp add: y ed loop_upd_def)
      next
        case False
        then show ?thesis
          using eref by (auto simp: y loop_upd_def h1_def edge_data_append)
      qed
    qed
    have comp: "map (loop_upd k ks) (map (loop_upd k {(u, v)}) (edge_view h g)) =
                map (loop_upd k (insert (u, v) ks)) (edge_view h g)"
      unfolding map_map
    proof (rule map_cong[OF refl])
      fix y assume "y \<in> set (edge_view h g)"
      obtain n w e where y: "y = (n, w, e)" by (cases y)
      show "(loop_upd k ks \<circ> loop_upd k {(u, v)}) y = loop_upd k (insert (u, v) ks) y"
        using uv_notin by (auto simp: y loop_upd_def)
    qed
    have take1: "take (length h) h' = h"
    proof -
      have "take (length h) h' = take (length h) (take (length h1) h')"
        by (simp add: h1_def min_def)
      also have "\<dots> = take (length h) h1" using IH by simp
      also have "\<dots> = h" by (simp add: h1_def)
      finally show ?thesis .
    qed
    have len: "length h \<le> length h'" using IH by (simp add: h1_def)
    have ksx: "set (map (\<lambda>(u, v, d). (u, v)) (x # es)) = insert (u, v) ks"
      by (simp add: x ks_def)
    have fx: "filter (\<lambda>(u, v, d). upto_step k (h ! e_interactions d) = []) (x # es) =
              filter (\<lambda>(u, v, d). upto_step k (h ! e_interactions d) = []) es"
      using False by (simp add: x kept_def)
    have c1: "edge_view h' g' = map (loop_upd k (insert (u, v) ks)) (edge_view h g)"
      using IH view1 comp by (simp add: ks_def)
    have c2: "rm' = rm @ map (\<lambda>(u, v, d). (u, v))
                      (filter (\<lambda>(u, v, d). upto_step k (h ! e_interactions d) = []) es)"
      using IH rm_eq by simp
    have c3: "nx_nodes g' = nx_nodes g \<and> edge_keys g' = edge_keys g \<and> refs_below (length h') g'"
      using IH by (simp add: g1_def)
    show ?thesis
      unfolding ksx fx using c1 c2 c3 take1 len by simp
  qed
qed

lemma set_nx_edges:
  "(u, v, d) \<in> set (nx_edges g) \<longleftrightarrow> (\<exists>a adj. (u, a, adj) \<in> set g \<and> (v, d) \<in> set adj)"
  by (induction g) (fastforce simp: nx_edges_Cons)+

lemma set_edge_keys:
  "(u, v) \<in> set (edge_keys g) \<longleftrightarrow> (\<exists>a adj. (u, a, adj) \<in> set g \<and> v \<in> set (map fst adj))"
proof -
  have "(u, v) \<in> set (edge_keys g) \<longleftrightarrow> (\<exists>d. (u, v, d) \<in> set (nx_edges g))"
    by (force simp: edge_keys_def)
  then show ?thesis by (force simp: set_nx_edges)
qed

lemma nx_in_degree_pos:
  "nx_in_degree g n \<noteq> 0 \<longleftrightarrow> (\<exists>u. (u, n) \<in> set (edge_keys g))"
proof -
  have "nx_in_degree g n \<noteq> 0 \<longleftrightarrow> (\<exists>x \<in> set g. case x of (u, a, adj) \<Rightarrow> n \<in> set (map fst adj))"
    by (simp add: nx_in_degree_def filter_empty_conv)
  then show ?thesis by (force simp: set_edge_keys)
qed

lemma map_of_node:
  "distinct (nx_nodes g) \<Longrightarrow> (n, a, adj) \<in> set g \<Longrightarrow> map_of g n = Some (a, adj)"
  by (simp add: nx_nodes_def)

lemma nx_out_degree_pos:
  assumes "distinct (nx_nodes g)" "n \<in> set (nx_nodes g)"
  shows "nx_out_degree g n \<noteq> 0 \<longleftrightarrow> (\<exists>v. (n, v) \<in> set (edge_keys g))"
proof -
  obtain a adj where in_g: "(n, a, adj) \<in> set g"
    using assms(2) by (auto simp: nx_nodes_def)
  have m: "map_of g n = Some (a, adj)" by (rule map_of_node[OF assms(1) in_g])
  have uniq: "\<And>a' adj'. (n, a', adj') \<in> set g \<Longrightarrow> adj' = adj"
    using map_of_node[OF assms(1)] m by fastforce
  have "nx_out_degree g n \<noteq> 0 \<longleftrightarrow> adj \<noteq> []" by (simp add: nx_out_degree_def m)
  also have "\<dots> \<longleftrightarrow> (\<exists>v. v \<in> set (map fst adj))" by (cases adj) auto
  also have "\<dots> \<longleftrightarrow> (\<exists>v. (n, v) \<in> set (edge_keys g))"
    unfolding set_edge_keys using in_g uniq by blast
  finally show ?thesis .
qed

lemma nx_degree_pos:
  assumes "distinct (nx_nodes g)" "n \<in> set (nx_nodes g)"
  shows "nx_degree g n \<noteq> 0 \<longleftrightarrow> (\<exists>(u, v) \<in> set (edge_keys g). u = n \<or> v = n)"
proof -
  have "nx_degree g n \<noteq> 0 \<longleftrightarrow> nx_in_degree g n \<noteq> 0 \<or> nx_out_degree g n \<noteq> 0"
    by (simp add: nx_degree_def)
  then show ?thesis
    unfolding nx_in_degree_pos nx_out_degree_pos[OF assms] by auto
qed

lemma nx_remove_node_isolated:
  assumes "nx_in_degree g n = 0"
  shows "nx_remove_node n g = filter (\<lambda>(k, a, adj). k \<noteq> n) g"
proof -
  have no: "\<And>k a adj. (k, a, adj) \<in> set g \<Longrightarrow> n \<notin> set (map fst adj)"
    using assms by (auto simp: nx_in_degree_def filter_empty_conv)
  have "map (\<lambda>(k, a, adj). (k, a, filter (\<lambda>(w, e). w \<noteq> n) adj)) (filter (\<lambda>(k, a, adj). k \<noteq> n) g) =
        filter (\<lambda>(k, a, adj). k \<noteq> n) g"
  proof (rule map_idI)
    fix x assume "x \<in> set (filter (\<lambda>(k, a, adj). k \<noteq> n) g)"
    then have xg: "x \<in> set g" by simp
    obtain k a adj where x: "x = (k, a, adj)" by (cases x)
    have xin: "(k, a, adj) \<in> set g" using xg x by simp
    have "filter (\<lambda>(w, e). w \<noteq> n) adj = adj"
      using no[OF xin] by (intro filter_True) force
    then show "(case x of (k, a, adj) \<Rightarrow> (k, a, filter (\<lambda>(w, e). w \<noteq> n) adj)) = x"
      by (simp add: x)
  qed
  then show ?thesis by (simp add: nx_remove_node_def)
qed

lemma nx_in_degree_filter:
  "nx_in_degree g n = 0 \<Longrightarrow> nx_in_degree (filter P g) n = 0"
  by (auto simp: nx_in_degree_def filter_empty_conv)

lemma nx_remove_nodes_from_isolated:
  "\<forall>n \<in> set ns. nx_in_degree g n = 0 \<Longrightarrow>
     nx_remove_nodes_from ns g = filter (\<lambda>(k, a, adj). k \<notin> set ns) g"
proof (induction ns arbitrary: g)
  case Nil
  show ?case by (simp add: nx_remove_nodes_from_def)
next
  case (Cons n ns)
  have one: "nx_remove_node n g = filter (\<lambda>(k, a, adj). k \<noteq> n) g"
    using Cons.prems by (simp add: nx_remove_node_isolated)
  have rest: "\<forall>m \<in> set ns. nx_in_degree (filter (\<lambda>(k, a, adj). k \<noteq> n) g) m = 0"
    using Cons.prems by (simp add: nx_in_degree_filter)
  have "nx_remove_nodes_from (n # ns) g = nx_remove_nodes_from ns (nx_remove_node n g)"
    by (simp add: nx_remove_nodes_from_def)
  also have "\<dots> = filter (\<lambda>(k, a, adj). k \<notin> set ns) (filter (\<lambda>(k, a, adj). k \<noteq> n) g)"
    unfolding one by (rule Cons.IH[OF rest])
  also have "\<dots> = filter (\<lambda>(k, a, adj). k \<notin> set (n # ns)) g"
    by (simp, rule filter_cong, auto)
  finally show ?case .
qed

lemma nx_edges_filter_nodes:
  "\<forall>(k, a, adj) \<in> set g. \<not> P (k, a, adj) \<longrightarrow> adj = [] \<Longrightarrow> nx_edges (filter P g) = nx_edges g"
  by (induction g) (fastforce simp: nx_edges_Cons)+

lemma nx_nodes_filter_nodes:
  "nx_nodes (filter (\<lambda>(k, a, adj). Q k) g) = filter Q (nx_nodes g)"
  by (induction g) (auto simp: nx_nodes_def)

text \<open>Removing the isolated nodes: the nodes of positive degree stay, the edges stay.\<close>

lemma remove_isolates:
  assumes "distinct (nx_nodes g)"
  shows "nx_nodes (nx_remove_nodes_from (nx_isolates g) g) =
           filter (\<lambda>n. \<exists>(u, v) \<in> set (edge_keys g). u = n \<or> v = n) (nx_nodes g)"
    and "nx_edges (nx_remove_nodes_from (nx_isolates g) g) = nx_edges g"
proof -
  have iso_in: "\<forall>n \<in> set (nx_isolates g). nx_in_degree g n = 0"
    by (simp add: nx_isolates_def nx_degree_def)
  have eq: "nx_remove_nodes_from (nx_isolates g) g =
            filter (\<lambda>(k, a, adj). k \<notin> set (nx_isolates g)) g"
    by (rule nx_remove_nodes_from_isolated[OF iso_in])
  have "nx_nodes (nx_remove_nodes_from (nx_isolates g) g) =
        filter (\<lambda>n. n \<notin> set (nx_isolates g)) (nx_nodes g)"
    unfolding eq by (rule nx_nodes_filter_nodes)
  also have "\<dots> = filter (\<lambda>n. \<exists>(u, v) \<in> set (edge_keys g). u = n \<or> v = n) (nx_nodes g)"
  proof (rule filter_cong[OF refl])
    fix n assume n: "n \<in> set (nx_nodes g)"
    have "n \<notin> set (nx_isolates g) \<longleftrightarrow> nx_degree g n \<noteq> 0"
      using n by (simp add: nx_isolates_def)
    then show "(n \<notin> set (nx_isolates g)) = (\<exists>(u, v) \<in> set (edge_keys g). u = n \<or> v = n)"
      using nx_degree_pos[OF assms n] by simp
  qed
  finally show "nx_nodes (nx_remove_nodes_from (nx_isolates g) g) =
           filter (\<lambda>n. \<exists>(u, v) \<in> set (edge_keys g). u = n \<or> v = n) (nx_nodes g)" .
  have "adj = []" if kin: "(k, a, adj) \<in> set g" and iso: "k \<in> set (nx_isolates g)" for k a adj
  proof -
    have "nx_out_degree g k = 0" using iso by (simp add: nx_isolates_def nx_degree_def)
    then show "adj = []"
      by (simp add: nx_out_degree_def map_of_node[OF assms kin])
  qed
  then have "\<forall>(k, a, adj) \<in> set g. \<not> (k \<notin> set (nx_isolates g)) \<longrightarrow> adj = []"
    by auto
  then have "nx_edges (filter (\<lambda>(k, a, adj). k \<notin> set (nx_isolates g)) g) = nx_edges g"
    using nx_edges_filter_nodes[of g "\<lambda>(k, a, adj). k \<notin> set (nx_isolates g)"] by simp
  then show "nx_edges (nx_remove_nodes_from (nx_isolates g) g) = nx_edges g"
    by (simp add: eq)
qed

lemma filter_map_cong2:
  "(\<And>x. x \<in> set xs \<Longrightarrow> (P (f x) \<longleftrightarrow> Q (g x)) \<and> (Q (g x) \<longrightarrow> f x = g x)) \<Longrightarrow>
     filter P (map f xs) = filter Q (map g xs)"
  by (induction xs) auto

lemma edge_view_cong_edges: "nx_edges g = nx_edges g' \<Longrightarrow> edge_view h g = edge_view h g'"
  by (simp add: edge_view_def)

lemma edge_keys_cong_edges: "nx_edges g = nx_edges g' \<Longrightarrow> edge_keys g = edge_keys g'"
  by (simp add: edge_keys_def)

lemma filter_graph_by_step_view:
  assumes gr: "graph self = Some g" and ne: "g \<noteq> []" and wf: "wf_graph h g"
  shows "\<exists>view h'. filter_graph_by_step k (self, h) = (Inr view, h')
      \<and> edge_view h' view =
          filter (\<lambda>(u, v, e). interactions e \<noteq> [])
            (map (\<lambda>(u, v, e). (u, v, restrict_edge k e)) (edge_view h g))
      \<and> nx_nodes view = filter (\<lambda>n. \<exists>(u, v) \<in> set (edge_keys view). u = n \<or> v = n) (nx_nodes g)
      \<and> take (length h) h' = h \<and> length h \<le> length h' \<and> wf_graph h' view"
proof -
  obtain g1 h1 rm where loop: "filter_loop k (nx_edges g) (g, h, []) = (g1, h1, rm)"
    by (cases "filter_loop k (nx_edges g) (g, h, [])") auto
  define g2 where "g2 = fold (\<lambda>(u, v). nx_remove_edge u v) rm g1"
  define view where "view = nx_remove_nodes_from (nx_isolates g2) g2"
  have dk: "distinct (edge_keys g)" and dn: "distinct (nx_nodes g)"
    and rb: "refs_below (length h) g"
    using wf by (simp_all add: wf_graph_def)
  have dk': "distinct (map (\<lambda>(u, v, d). (u, v)) (nx_edges g))"
    using dk by (simp add: edge_keys_def)
  note L = filter_loop_view[OF loop dk' subset_refl dk rb]
  have L1: "edge_view h1 g1 =
      map (loop_upd k (set (map (\<lambda>(u, v, d). (u, v)) (nx_edges g)))) (edge_view h g)"
    using L by simp
  have L2: "rm = map (\<lambda>(u, v, d). (u, v))
                   (filter (\<lambda>(u, v, d). upto_step k (h ! e_interactions d) = []) (nx_edges g))"
    using L by simp
  have L3: "nx_nodes g1 = nx_nodes g" "edge_keys g1 = edge_keys g" "take (length h) h1 = h"
    "length h \<le> length h1" "refs_below (length h1) g1"
    using L by simp_all
  have res: "filter_graph_by_step k (self, h) = (Inr view, h1)"
    using gr ne loop
    by (simp add: filter_graph_by_step_def no_graph_def nx_number_of_nodes_def nx_copy_def Let_def
        view_def g2_def)
  have e2: "nx_edges g2 = filter (\<lambda>(n, w, e). (n, w) \<notin> set rm) (nx_edges g1)"
    by (simp add: g2_def nx_edges_remove_edges)
  have n2: "nx_nodes g2 = nx_nodes g" by (simp add: g2_def L3)
  have d2: "distinct (nx_nodes g2)" using dn n2 by simp
  have ev: "nx_edges view = nx_edges g2"
    unfolding view_def by (rule remove_isolates(2)[OF d2])
  have nv: "nx_nodes view = filter (\<lambda>n. \<exists>(u, v) \<in> set (edge_keys view). u = n \<or> v = n) (nx_nodes g)"
    using remove_isolates(1)[OF d2] edge_keys_cong_edges[OF ev] by (simp add: view_def n2)
  have view2: "edge_view h1 view = filter (\<lambda>(n, w, e). (n, w) \<notin> set rm) (edge_view h1 g1)"
    unfolding edge_view_cong_edges[OF ev] by (simp add: edge_view_def e2 filter_map o_def split_def)
  have main: "filter (\<lambda>(n, w, e). (n, w) \<notin> set rm)
                 (map (loop_upd k (set (map (\<lambda>(u, v, d). (u, v)) (nx_edges g)))) (edge_view h g)) =
              filter (\<lambda>(u, v, e). interactions e \<noteq> [])
                 (map (\<lambda>(u, v, e). (u, v, restrict_edge k e)) (edge_view h g))"
  proof (rule filter_map_cong2)
    fix y assume "y \<in> set (edge_view h g)"
    then obtain n w e where y: "y = (n, w, edge_data h e)" and e: "(n, w, e) \<in> set (nx_edges g)"
      by (auto simp: edge_view_def)
    have inks: "(n, w) \<in> set (map (\<lambda>(u, v, d). (u, v)) (nx_edges g))"
      using e by force
    have ints: "interactions (edge_data h e) = h ! e_interactions e"
      by (simp add: edge_data_def)
    have inrm: "(n, w) \<in> set rm \<longleftrightarrow> upto_step k (h ! e_interactions e) = []"
    proof
      assume "(n, w) \<in> set rm"
      then obtain e' where e': "(n, w, e') \<in> set (nx_edges g)"
        and emp: "upto_step k (h ! e_interactions e') = []"
        unfolding L2 by auto
      have "e' = e" by (rule edge_keys_unique[OF dk e e'])
      then show "upto_step k (h ! e_interactions e) = []" using emp by simp
    next
      assume "upto_step k (h ! e_interactions e) = []"
      then show "(n, w) \<in> set rm" unfolding L2 using e by force
    qed
    have ri: "interactions (restrict_edge k (edge_data h e)) = upto_step k (h ! e_interactions e)"
      by (simp add: restrict_edge_def edge_data_def)
    show "((case loop_upd k (set (map (\<lambda>(u, v, d). (u, v)) (nx_edges g))) y of
             (n, w, e) \<Rightarrow> (n, w) \<notin> set rm) \<longleftrightarrow>
           (case (case y of (u, v, e) \<Rightarrow> (u, v, restrict_edge k e)) of
             (u, v, e) \<Rightarrow> interactions e \<noteq> [])) \<and>
          ((case (case y of (u, v, e) \<Rightarrow> (u, v, restrict_edge k e)) of
             (u, v, e) \<Rightarrow> interactions e \<noteq> []) \<longrightarrow>
           loop_upd k (set (map (\<lambda>(u, v, d). (u, v)) (nx_edges g))) y =
             (case y of (u, v, e) \<Rightarrow> (u, v, restrict_edge k e)))"
      using inks inrm ri ints by (simp add: y loop_upd_def)
  qed
  have view_eq: "edge_view h1 view =
          filter (\<lambda>(u, v, e). interactions e \<noteq> [])
            (map (\<lambda>(u, v, e). (u, v, restrict_edge k e)) (edge_view h g))"
    unfolding view2 L1 by (rule main)
  have wfv: "wf_graph h1 view"
  proof -
    have "distinct (nx_nodes view)" using dn by (simp add: nv)
    moreover have "distinct (edge_keys view)"
      using dk L3(2) by (simp add: edge_keys_def ev e2 distinct_map_filter)
    moreover have "refs_below (length h1) view"
      using L3(5) by (auto simp: refs_below_def ev e2)
    ultimately show ?thesis by (simp add: wf_graph_def)
  qed
  show ?thesis
    using res view_eq nv L3(3,4) wfv by blast
qed

lemma edge_keys_Cons:
  "edge_keys ((n, a, adj) # g) = map (\<lambda>v. (n, v)) (map fst adj) @ edge_keys g"
  by (simp add: edge_keys_def nx_edges_Cons o_def split_def)

lemma edge_keys_fst: "(u, v) \<in> set (edge_keys g) \<Longrightarrow> u \<in> set (nx_nodes g)"
  by (force simp: set_edge_keys nx_nodes_def)

lemma struct_ok_distinct_keys:
  "struct_ok g \<Longrightarrow> distinct (edge_keys g)"
proof (induction g)
  case Nil
  show ?case by (simp add: edge_keys_def)
next
  case (Cons x g)
  obtain n a adj where x: "x = (n, a, adj)" by (cases x)
  have sg: "struct_ok g" using Cons.prems by (auto simp: struct_ok_def nx_nodes_def)
  have dadj: "distinct (map fst adj)" using Cons.prems by (simp add: struct_ok_def x)
  have nn: "n \<notin> set (nx_nodes g)" using Cons.prems by (simp add: struct_ok_def x nx_nodes_def)
  have d1: "distinct (map (\<lambda>v. (n, v)) (map fst adj))"
    using dadj by (simp add: distinct_map inj_on_def)
  have disj: "set (map (\<lambda>v. (n, v)) (map fst adj)) \<inter> set (edge_keys g) = {}"
    using nn edge_keys_fst by fastforce
  show ?case
    unfolding x edge_keys_Cons using d1 Cons.IH[OF sg] disj by simp
qed

lemma nx_nodes_add_node:
  "nx_nodes (nx_add_node n g) = (if n \<in> set (nx_nodes g) then nx_nodes g else nx_nodes g @ [n])"
  by (simp add: nx_add_node_def nx_has_node_def nx_nodes_def)

lemma nx_edges_add_node [simp]: "nx_edges (nx_add_node n g) = nx_edges g"
  by (simp add: nx_add_node_def nx_edges_append nx_edges_Cons)

lemma struct_ok_add_node: "struct_ok g \<Longrightarrow> struct_ok (nx_add_node n g)"
  by (cases "nx_has_node g n")
     (auto simp: struct_ok_def nx_add_node_def nx_nodes_def nx_has_node_def)

lemma heap_ok_add_node [simp]: "heap_ok h (nx_add_node n g) = heap_ok h g"
  by (simp add: heap_ok_def)

lemma map_fst_upd [simp]:
  "map (fst \<circ> (\<lambda>(w, e). if w = v then (w, d) else (w, e))) adj = map fst adj"
  by (induction adj) auto

lemma adj_ok_set_edge:
  "\<forall>(n, a, adj) \<in> set g. distinct (map fst adj) \<Longrightarrow>
     \<forall>(n, a, adj) \<in> set (nx_set_edge u v d g). distinct (map fst adj)"
proof (induction g)
  case Nil
  show ?case by (simp add: nx_set_edge_def)
next
  case (Cons x g)
  obtain n a adj where x: "x = (n, a, adj)" by (cases x)
  show ?case using Cons by (simp add: x nx_set_edge_Cons)
qed

lemma struct_ok_set_edge: "struct_ok g \<Longrightarrow> struct_ok (nx_set_edge u v d g)"
  using adj_ok_set_edge[of g u v d] by (simp add: struct_ok_def)

lemma nx_get_edge_SomeD:
  "nx_get_edge g u v = Some d \<Longrightarrow> (u, v, d) \<in> set (nx_edges g)"
  by (auto simp: nx_get_edge_def set_nx_edges split: option.splits dest!: map_of_SomeD)

lemma nx_get_edge_NoneD:
  assumes "nx_get_edge g u v = None" "distinct (nx_nodes g)"
  shows "(u, v) \<notin> set (edge_keys g)"
proof
  assume "(u, v) \<in> set (edge_keys g)"
  then obtain a adj where in_g: "(u, a, adj) \<in> set g" and v: "v \<in> set (map fst adj)"
    by (auto simp: set_edge_keys)
  have "map_of g u = Some (a, adj)" by (rule map_of_node[OF assms(2) in_g])
  then have "map_of adj v = None" using assms(1) by (simp add: nx_get_edge_def)
  then show False using v by (simp add: map_of_eq_None_iff)
qed

lemma nx_nodes_add_succ [simp]: "nx_nodes (add_succ u v attr g) = nx_nodes g"
  by (induction g) (auto simp: add_succ_def nx_nodes_def)

lemma set_nx_edges_add_succ:
  "u \<in> set (nx_nodes g) \<Longrightarrow>
     set (nx_edges (add_succ u v attr g)) = insert (u, v, attr) (set (nx_edges g))"
proof (induction g)
  case Nil
  then show ?case by (simp add: nx_nodes_def)
next
  case (Cons x g)
  obtain n a adj where x: "x = (n, a, adj)" by (cases x)
  have unf: "add_succ u v attr ((n, a, adj) # g) =
       (n, a, if n = u then adj @ [(v, attr)] else adj) # add_succ u v attr g"
    by (simp add: add_succ_def)
  have unchanged: "u \<notin> set (nx_nodes g) \<Longrightarrow> add_succ u v attr g = g"
    by (force simp: add_succ_def nx_nodes_def intro!: map_idI)
  have e: "nx_edges (add_succ u v attr (x # g)) =
       map (\<lambda>(w, d). (n, w, d)) (if n = u then adj @ [(v, attr)] else adj)
         @ nx_edges (add_succ u v attr g)"
    unfolding x unf nx_edges_Cons by simp
  have e0: "nx_edges (x # g) = map (\<lambda>(w, d). (n, w, d)) adj @ nx_edges g"
    unfolding x nx_edges_Cons by simp
  show ?case
  proof (cases "u \<in> set (nx_nodes g)")
    case True
    show ?thesis unfolding e e0 using Cons.IH[OF True] by auto
  next
    case False
    then have nu: "n = u" using Cons.prems by (simp add: x nx_nodes_def)
    show ?thesis by (auto simp: e e0 unchanged[OF False] nu)
  qed
qed

lemma struct_ok_add_succ:
  assumes "struct_ok g" "(u, v) \<notin> set (edge_keys g)"
  shows "struct_ok (add_succ u v attr g)"
proof -
  have "distinct (map fst adj')" if "(n, a, adj') \<in> set (add_succ u v attr g)" for n a adj'
  proof -
    from that obtain adj where in_g: "(n, a, adj) \<in> set g"
      and adj': "adj' = (if n = u then adj @ [(v, attr)] else adj)"
      by (auto simp: add_succ_def split: if_splits)
    have d: "distinct (map fst adj)" using assms(1) in_g by (auto simp: struct_ok_def)
    have "n = u \<Longrightarrow> v \<notin> set (map fst adj)"
      using assms(2) in_g by (auto simp: set_edge_keys)
    then show ?thesis using d by (auto simp: adj')
  qed
  then show ?thesis using assms(1) by (auto simp: struct_ok_def)
qed

lemma nx_add_edge_new:
  assumes "u \<in> set (nx_nodes g)" "v \<in> set (nx_nodes g)" "nx_get_edge g u v = None"
  shows "nx_add_edge u v attr g = add_succ u v attr g"
  using assms by (simp add: nx_add_edge_def nx_add_node_def nx_has_node_def nx_has_edge_def add_succ_def)

lemma add_or_update_node_inv:
  assumes "add_or_update_node nid m (nm, g) = (err, nm', g')"
    and "set (map fst nm) = set (nx_nodes g)" and "struct_ok g"
  shows "set (map fst nm') = set (nx_nodes g') \<and> struct_ok g' \<and> nx_edges g' = nx_edges g
       \<and> nid \<in> set (nx_nodes g') \<and> set (nx_nodes g) \<subseteq> set (nx_nodes g')"
proof -
  define nm1 where "nm1 = (if nid \<notin> set (map fst nm)
       then nm @ [(nid, \<lparr>a_id = nid, a_label = nid, a_message_count = 0,
                          a_first_appearance = timestamp m,
                          a_last_activity = timestamp m, a_metadata = []\<rparr>)]
       else nm)"
  define g1 where "g1 = (if nid \<notin> set (map fst nm) then nx_add_node nid g else g)"
  have keys: "\<And>f xs. map fst (map (\<lambda>(k, d). if k = nid then (k, f d) else (k, d)) xs) = map fst xs"
    by (rule list.map_cong0[THEN trans[OF list.map_comp]]) auto
  have g': "g' = g1"
    using assms(1)
    by (auto simp: add_or_update_node_def g1_def Let_def split: if_splits sum.splits)
  have nm': "map fst nm' = map fst nm1"
    using assms(1) keys
    by (auto simp: add_or_update_node_def nm1_def Let_def split: if_splits sum.splits)
  have k1: "set (map fst nm1) = insert nid (set (map fst nm))"
    by (auto simp: nm1_def)
  have n1: "set (nx_nodes g1) = insert nid (set (nx_nodes g))"
    using assms(2) by (auto simp: g1_def nx_nodes_add_node)
  have s1: "struct_ok g1" using assms(3) by (simp add: g1_def struct_ok_add_node)
  have e1: "nx_edges g1 = nx_edges g" by (simp add: g1_def)
  show ?thesis
    unfolding g' nm' using k1 n1 s1 e1 assms(2) by auto
qed


lemma py_max_error:
  "py_max a t = Inl e \<Longrightarrow>
     e = TypeError ''can't compare offset-naive and offset-aware datetimes''"
  by (cases a; cases t) (auto simp: py_max_def datetime_gt_def)

lemma add_or_update_node_error:
  "add_or_update_node nid m (nm, g) = (Some e, nm', g') \<Longrightarrow>
     e = TypeError ''can't compare offset-naive and offset-aware datetimes''"
  by (auto simp: add_or_update_node_def Let_def split: if_splits sum.splits dest: py_max_error)



lemma heap_ok_edge: "heap_ok h g \<Longrightarrow> x \<in> set (nx_edges g) \<Longrightarrow> edge_ok h x"
  by (simp add: heap_ok_def)

lemma infer_intent_produced: "infer_intent m \<in> produced_intents"
  by (cases "message_type m") (simp_all add: infer_intent_def type_to_intent_def produced_intents_def)

lemma add_interaction_inv:
  assumes res: "add_interaction m (g, h) = (g', h')"
    and so: "struct_ok g" and ho: "heap_ok h g"
    and sn: "sender m \<in> set (nx_nodes g)"
    and rn: "\<And>r. receiver m = Some r \<Longrightarrow> r \<in> set (nx_nodes g)"
  shows "struct_ok g' \<and> heap_ok h' g' \<and> nx_nodes g' = nx_nodes g"
proof (cases "receiver m")
  case None
  then show ?thesis using res so ho by (simp add: add_interaction_def)
next
  case (Some r)
  show ?thesis
  proof (cases "r = []")
    case True
    then show ?thesis using res so ho Some by (simp add: add_interaction_def)
  next
    case False
    define i where "i = \<lparr>i_step_index = step_index m, i_timestamp = timestamp m,
                      intent = infer_intent m, message_id = Some (step_index m),
                      i_metadata = [(''message_type'', MessageType_value (message_type m)),
                                    (''content_preview'', take 100 (content m))]\<rparr>"
    define s where "s = sender m"
    have dk: "distinct (edge_keys g)" by (rule struct_ok_distinct_keys[OF so])
    have inj: "inj_on (\<lambda>(u, v, d). e_interactions d) (set (nx_edges g))"
      using ho by (simp add: heap_ok_def)
    show ?thesis
    proof (cases "nx_get_edge g s r")
      case None
      define attr where "attr = \<lparr>e_interactions = length h, e_weight = 1,
                                 e_source = s, e_target = r\<rparr>"
      have g': "g' = add_succ s r attr g" and h': "h' = h @ [[i]]"
        using res Some False None nx_add_edge_new[OF sn[folded s_def] rn[OF Some] None]
        by (simp_all add: add_interaction_def s_def[symmetric] i_def[symmetric] attr_def Let_def)
      have notin: "(s, r) \<notin> set (edge_keys g)"
        using nx_get_edge_NoneD[OF None] so by (simp add: struct_ok_def)
      have st: "struct_ok g'" unfolding g' by (rule struct_ok_add_succ[OF so notin])
      have es: "set (nx_edges g') = insert (s, r, attr) (set (nx_edges g))"
        unfolding g' by (rule set_nx_edges_add_succ[OF sn[folded s_def]])
      have old: "edge_ok h' x" if "x \<in> set (nx_edges g)" for x
        using heap_ok_edge[OF ho that] by (cases x) (auto simp: edge_ok_def h' nth_append)
      have ii: "intent i \<in> produced_intents" by (simp add: i_def infer_intent_produced)
      have new: "edge_ok h' (s, r, attr)"
        using ii by (simp add: edge_ok_def h' attr_def)
      have fresh: "e_interactions d < length h" if "(u, v, d) \<in> set (nx_edges g)" for u v d
        using heap_ok_edge[OF ho that] by (simp add: edge_ok_def)
      have inj': "inj_on (\<lambda>(u, v, d). e_interactions d) (set (nx_edges g'))"
        unfolding es using inj fresh by (fastforce simp: attr_def)
      show ?thesis using st old new inj' es by (auto simp: heap_ok_def g')
    next
      case (Some d)
      define d' where "d' = d\<lparr>e_weight := e_weight d + 1\<rparr>"
      define F where "F = (\<lambda>(n, w, e). if n = s \<and> w = r then (n, w, d') else (n, w, e))"
      have g': "g' = nx_set_edge s r d' g"
        and h': "h' = h[e_interactions d := h ! e_interactions d @ [i]]"
        using res \<open>receiver m = Some r\<close> False Some
        by (simp_all add: add_interaction_def s_def[symmetric] i_def[symmetric] d'_def Let_def)
      have din: "(s, r, d) \<in> set (nx_edges g)" by (rule nx_get_edge_SomeD[OF Some])
      have dok: "edge_ok h (s, r, d)" by (rule heap_ok_edge[OF ho din])
      have es: "nx_edges g' = map F (nx_edges g)"
        by (simp add: g' nx_edges_set_edge F_def)
      have st: "struct_ok g'" unfolding g' by (rule struct_ok_set_edge[OF so])
      have Fok: "edge_ok h' (F x)" if xin: "x \<in> set (nx_edges g)" for x
      proof -
        obtain n w e where x: "x = (n, w, e)" by (cases x)
        show ?thesis
        proof (cases "n = s \<and> w = r")
          case True
          have ii: "intent i \<in> produced_intents" by (simp add: i_def infer_intent_produced)
          show ?thesis
            using True dok ii by (auto simp: x F_def edge_ok_def d'_def h')
        next
          case False
          then have "x \<noteq> (s, r, d)" by (auto simp: x)
          then have "e_interactions e \<noteq> e_interactions d"
            using inj_onD[OF inj _ xin din] by (auto simp: x)
          then show ?thesis
            using False heap_ok_edge[OF ho xin] by (auto simp: x F_def edge_ok_def h')
        qed
      qed
      have Fref: "(\<lambda>(u, v, d). e_interactions d) (F x) = (\<lambda>(u, v, d). e_interactions d) x"
        if xin: "x \<in> set (nx_edges g)" for x
      proof -
        obtain n w e where x: "x = (n, w, e)" by (cases x)
        show ?thesis
        proof (cases "n = s \<and> w = r")
          case True
          then have "e = d" using edge_keys_unique[OF dk din] xin by (simp add: x)
          then show ?thesis using True by (simp add: x F_def d'_def)
        next
          case False
          then show ?thesis by (auto simp: x F_def)
        qed
      qed
      have inj': "inj_on (\<lambda>(u, v, d). e_interactions d) (set (nx_edges g'))"
        unfolding es set_map
      proof (rule inj_onI)
        fix a b assume a: "a \<in> F ` set (nx_edges g)" and b: "b \<in> F ` set (nx_edges g)"
          and eq: "(case a of (u, v, d) \<Rightarrow> e_interactions d) = (case b of (u, v, d) \<Rightarrow> e_interactions d)"
        from a obtain x where x: "x \<in> set (nx_edges g)" "a = F x" by auto
        from b obtain y where y: "y \<in> set (nx_edges g)" "b = F y" by auto
        have "(\<lambda>(u, v, d). e_interactions d) x = (\<lambda>(u, v, d). e_interactions d) y"
          using eq Fref[OF x(1)] Fref[OF y(1)] by (simp add: x(2) y(2))
        then have "x = y" by (rule inj_onD[OF inj _ x(1) y(1)])
        then show "a = b" by (simp add: x(2) y(2))
      qed
      have nn: "nx_nodes g' = nx_nodes g" by (simp add: g')
      show ?thesis using st Fok inj' nn by (auto simp: heap_ok_def es)
    qed
  qed
qed

lemma heap_ok_cong: "nx_edges g' = nx_edges g \<Longrightarrow> heap_ok h g' = heap_ok h g"
  by (simp add: heap_ok_def)

lemma build_step_inv:
  assumes inv: "build_inv (nm, g, h)" and res: "build_step m (nm, g, h) = (err, nm', g', h')"
  shows "build_inv (nm', g', h') \<and> sender m \<in> set (nx_nodes g')
       \<and> set (nx_nodes g) \<subseteq> set (nx_nodes g')"
proof -
  obtain e1 nm1 g1 where a1: "add_or_update_node (sender m) m (nm, g) = (e1, nm1, g1)"
    by (cases "add_or_update_node (sender m) m (nm, g)") auto
  have k: "set (map fst nm) = set (nx_nodes g)" and so: "struct_ok g" and ho: "heap_ok h g"
    using inv by (simp_all add: build_inv_def)
  note A1 = add_or_update_node_inv[OF a1 k so]
  have h1: "heap_ok h g1" using A1 ho heap_ok_cong by blast
  have simple: "build_inv (nm1, g1, h) \<and> sender m \<in> set (nx_nodes g1)
       \<and> set (nx_nodes g) \<subseteq> set (nx_nodes g1)"
    using A1 h1 by (simp add: build_inv_def)
  show ?thesis
  proof (cases "e1 \<noteq> None \<or> receiver m = None \<or> receiver m = Some []")
    case True
    then have "(nm', g', h') = (nm1, g1, h)"
      using res a1 by (auto simp: build_step_def split: option.splits)
    then show ?thesis using simple by simp
  next
    case False
    then obtain r where e1: "e1 = None" and Some: "receiver m = Some r" and rne: "r \<noteq> []"
      by auto
    obtain e2 nm2 g2 where a2: "add_or_update_node r m (nm1, g1) = (e2, nm2, g2)"
      by (cases "add_or_update_node r m (nm1, g1)") auto
    have A1k: "set (map fst nm1) = set (nx_nodes g1)" and A1s: "struct_ok g1" using A1 by simp_all
    note A2 = add_or_update_node_inv[OF a2 A1k A1s]
    have A2s: "struct_ok g2" using A2 by simp
    have h2: "heap_ok h g2" using A2 h1 heap_ok_cong by blast
    have sn: "sender m \<in> set (nx_nodes g2)" using A1 A2 by blast
    have sub2: "set (nx_nodes g) \<subseteq> set (nx_nodes g2)" using A1 A2 by blast
    show ?thesis
    proof (cases e2)
      case (Some e)
      then have "(nm', g', h') = (nm2, g2, h)"
        using res a1 a2 e1 \<open>receiver m = Some r\<close> rne by (simp add: build_step_def)
      then show ?thesis using A2 h2 sn sub2 by (simp add: build_inv_def)
    next
      case None
      obtain g3 h3 where a3: "add_interaction m (g2, h) = (g3, h3)"
        by (cases "add_interaction m (g2, h)") auto
      have eq: "(nm', g', h') = (nm2, g3, h3)"
        using res a1 a2 a3 e1 None \<open>receiver m = Some r\<close> rne by (simp add: build_step_def)
      have rn: "\<And>r'. receiver m = Some r' \<Longrightarrow> r' \<in> set (nx_nodes g2)"
        using A2 \<open>receiver m = Some r\<close> by simp
      note A3 = add_interaction_inv[OF a3 A2s h2 sn rn]
      show ?thesis
        using eq A2 A3 sn sub2 by (simp add: build_inv_def)
    qed
  qed
qed

lemma build_step_error:
  "build_step m (nm, g, h) = (Some e, st') \<Longrightarrow>
     e = TypeError ''can't compare offset-naive and offset-aware datetimes''"
  by (auto simp: build_step_def split: prod.splits option.splits if_splits
      dest: add_or_update_node_error)


lemma build_loop_inv:
  assumes "build_inv (nm, g, h)" "build_loop ms (nm, g, h) = (err, nm', g', h')"
  shows "build_inv (nm', g', h') \<and> set (nx_nodes g) \<subseteq> set (nx_nodes g')
       \<and> (ms \<noteq> [] \<longrightarrow> nx_nodes g' \<noteq> [])"
  using assms
proof (induction ms arbitrary: nm g h)
  case Nil
  then show ?case by simp
next
  case (Cons m ms)
  obtain e1 nm1 g1 h1 where s: "build_step m (nm, g, h) = (e1, nm1, g1, h1)"
    by (cases "build_step m (nm, g, h)") auto
  note S = build_step_inv[OF Cons.prems(1) s]
  have ne1: "nx_nodes g1 \<noteq> []" using S by auto
  show ?case
  proof (cases e1)
    case (Some e)
    then have "(nm', g', h') = (nm1, g1, h1)" using Cons.prems(2) s by simp
    then show ?thesis using S ne1 by simp
  next
    case None
    then have l: "build_loop ms (nm1, g1, h1) = (err, nm', g', h')"
      using Cons.prems(2) s by simp
    have inv1: "build_inv (nm1, g1, h1)" using S by simp
    from Cons.IH[OF inv1 l] S ne1 show ?thesis by auto
  qed
qed

lemma build_loop_error:
  "build_loop ms st = (Some e, st') \<Longrightarrow>
     e = TypeError ''can't compare offset-naive and offset-aware datetimes''"
proof (induction ms arbitrary: st)
  case Nil
  then show ?case by simp
next
  case (Cons m ms)
  obtain nm g h where st: "st = (nm, g, h)" by (cases st)
  obtain e1 st1 where s: "build_step m (nm, g, h) = (e1, st1)"
    by (cases "build_step m (nm, g, h)") auto
  show ?case
  proof (cases e1)
    case (Some e')
    then show ?thesis using Cons.prems s build_step_error[of m nm g h e' st1] by (simp add: st)
  next
    case None
    then show ?thesis using Cons.prems s Cons.IH[of st1] by (simp add: st)
  qed
qed


lemma nx_nodes_update_node_attrs [simp]: "nx_nodes (nx_update_node_attrs n attrs g) = nx_nodes g"
  by (induction g) (auto simp: nx_update_node_attrs_def nx_nodes_def)

lemma nx_edges_update_node_attrs [simp]: "nx_edges (nx_update_node_attrs n attrs g) = nx_edges g"
proof (induction g)
  case Nil
  show ?case by (simp add: nx_update_node_attrs_def)
next
  case (Cons x g)
  obtain k a adj where x: "x = (k, a, adj)" by (cases x)
  have "nx_update_node_attrs n attrs ((k, a, adj) # g) =
        (k, if k = n then Some attrs else a, adj) # nx_update_node_attrs n attrs g"
    by (simp add: nx_update_node_attrs_def)
  then show ?case using Cons.IH by (simp add: x nx_edges_Cons)
qed

lemma attach_node_metadata_ok:
  "set (map fst nm) \<subseteq> set (nx_nodes g) \<Longrightarrow>
     \<exists>g'. attach_node_metadata nm g = (None, g') \<and> nx_nodes g' = nx_nodes g
          \<and> nx_edges g' = nx_edges g"
proof (induction nm arbitrary: g)
  case Nil
  show ?case by simp
next
  case (Cons x nm)
  obtain nid md where x: "x = (nid, md)" by (cases x)
  have has: "nx_has_node g nid" using Cons.prems by (simp add: x nx_has_node_def)
  have "set (map fst nm) \<subseteq> set (nx_nodes (nx_update_node_attrs nid md g))"
    using Cons.prems by simp
  from Cons.IH[OF this] show ?case using has by (simp add: x)
qed

lemma struct_ok_nodes_edges:
  "struct_ok g \<longleftrightarrow> distinct (nx_nodes g) \<and> (\<forall>(n, a, adj) \<in> set g. distinct (map fst adj))"
  by (simp add: struct_ok_def)

lemma build_graph_cases:
  assumes ne: "msgs \<noteq> []"
    and l: "build_loop (sort_key step_index msgs) ([], [], h) = (err, nm, g, h1)"
  shows "(\<forall>e. err = Some e \<longrightarrow>
            build_graph msgs (self, h) =
              (Inl e, \<lparr>graph = Some g, messages = sort_key step_index msgs\<rparr>, h1)
            \<and> e = TypeError ''can't compare offset-naive and offset-aware datetimes'')
       \<and> (err = None \<longrightarrow>
            (\<exists>g2. build_graph msgs (self, h) =
                    (Inr g2, \<lparr>graph = Some g2, messages = sort_key step_index msgs\<rparr>, h1)
                 \<and> built (\<lparr>graph = Some g2, messages = sort_key step_index msgs\<rparr>, h1) g2))"
proof -
  define ms where "ms = sort_key step_index msgs"
  have l': "build_loop ms ([], [], h) = (err, nm, g, h1)" using l by (simp add: ms_def)
  have msne: "ms \<noteq> []" using ne by (metis ms_def length_sort list.size(3) length_0_conv)
  have inv0: "build_inv ([], [], h)"
    by (simp add: build_inv_def struct_ok_def heap_ok_def nx_nodes_def)
  note L = build_loop_inv[OF inv0 l']
  have inv: "build_inv (nm, g, h1)" using L by simp
  have gne: "g \<noteq> []" using L msne by (auto simp: nx_nodes_def)
  have err_case: "build_graph msgs (self, h) = (Inl e, \<lparr>graph = Some g, messages = ms\<rparr>, h1)
        \<and> e = TypeError ''can't compare offset-naive and offset-aware datetimes''"
    if "err = Some e" for e
    using that ne l' build_loop_error[of ms "([], [], h)" e "(nm, g, h1)"]
    by (simp add: build_graph_def ms_def[symmetric] Let_def)
  have ok_case: "\<exists>g2. build_graph msgs (self, h) = (Inr g2, \<lparr>graph = Some g2, messages = ms\<rparr>, h1)
                 \<and> built (\<lparr>graph = Some g2, messages = ms\<rparr>, h1) g2"
    if "err = None"
  proof -
    have keys: "set (map fst nm) \<subseteq> set (nx_nodes g)" using inv by (simp add: build_inv_def)
    obtain g2 where at: "attach_node_metadata nm g = (None, g2)"
      and n2: "nx_nodes g2 = nx_nodes g" and e2: "nx_edges g2 = nx_edges g"
      using attach_node_metadata_ok[OF keys] by blast
    have res: "build_graph msgs (self, h) = (Inr g2, \<lparr>graph = Some g2, messages = ms\<rparr>, h1)"
      using that ne l' at by (simp add: build_graph_def ms_def[symmetric] Let_def)
    have so: "struct_ok g" and ho: "heap_ok h1 g" using inv by (simp_all add: build_inv_def)
    have dk: "distinct (edge_keys g)" by (rule struct_ok_distinct_keys[OF so])
    have ho2: "heap_ok h1 g2" using ho heap_ok_cong[OF e2] by simp
    have rb: "refs_below (length h1) g2"
      using ho2 by (fastforce simp: heap_ok_def refs_below_def edge_ok_def)
    have wf: "wf_graph h1 g2"
      using so dk rb n2 edge_keys_cong_edges[OF e2] by (simp add: wf_graph_def struct_ok_def)
    have g2ne: "g2 \<noteq> []" using gne n2 by (auto simp: nx_nodes_def)
    show ?thesis using res wf ho2 g2ne by (auto simp: built_def)
  qed
  show ?thesis using err_case ok_case by (simp add: ms_def)
qed

lemma build_graph_built:
  assumes "build_graph msgs (self, h) = (Inr g, self', h')"
  shows "self' = \<lparr>graph = Some g, messages = sort_key step_index msgs\<rparr> \<and> built (self', h') g"
proof -
  have ne: "msgs \<noteq> []" using assms by (auto simp: build_graph_def)
  obtain err nm g1 h1 where l: "build_loop (sort_key step_index msgs) ([], [], h) = (err, nm, g1, h1)"
    by (cases "build_loop (sort_key step_index msgs) ([], [], h)") auto
  from build_graph_cases[OF ne l, of self] assms show ?thesis
    by (cases err) auto
qed

lemma build_graph_messages:
  assumes "msgs \<noteq> []" "build_graph msgs (self, h) = (r, self', h')"
  shows "messages self' = sort_key step_index msgs"
proof -
  obtain err nm g1 h1 where l: "build_loop (sort_key step_index msgs) ([], [], h) = (err, nm, g1, h1)"
    by (cases "build_loop (sort_key step_index msgs) ([], [], h)") auto
  from build_graph_cases[OF assms(1) l, of self] assms(2) show ?thesis
    by (cases err) auto
qed



section \<open>Built models\<close>

lemma built_extend:
  assumes "built (self, h) g" "take (length h) h' = h" "length h \<le> length h'"
  shows "built (self, h') g"
proof -
  have nth: "h' ! r = h ! r" if "r < length h" for r
    using nth_take[OF that, of h'] assms(2) by simp
  have rb: "refs_below (length h) g" using assms(1) by (simp add: built_def wf_graph_def)
  have "edge_ok h' x" if xin: "x \<in> set (nx_edges g)" for x
  proof -
    have "edge_ok h x" using assms(1) xin by (simp add: built_def heap_ok_def)
    then show ?thesis using assms(3) by (cases x) (auto simp: edge_ok_def nth)
  qed
  moreover have "refs_below (length h') g"
    using rb assms(3) by (fastforce simp: refs_below_def)
  ultimately show ?thesis using assms(1) by (simp add: built_def wf_graph_def heap_ok_def)
qed

lemma built_filter:
  assumes "built (self, h) g" "filter_graph_by_step k (self, h) = (r, h')"
  shows "built (self, h') g"
proof -
  have gr: "graph self = Some g" and ne: "g \<noteq> []" and wf: "wf_graph h g"
    using assms(1) by (simp_all add: built_def)
  from filter_graph_by_step_view[OF gr ne wf, of k] assms(2)
  have "take (length h) h' = h \<and> length h \<le> length h'" by auto
  then show ?thesis using built_extend[OF assms(1)] by simp
qed

lemma to_graph_snapshot_heap:
  assumes "to_graph_snapshot ms (self, h) = (r, h')"
  shows "h' = h \<or> (\<exists>k r'. filter_graph_by_step k (self, h) = (r', h'))"
proof (cases "no_graph self \<or> \<not> truthy ms")
  case True
  then have "h' = h" using assms
    by (auto simp: to_graph_snapshot_def Let_def split: if_splits sum.splits)
  then show ?thesis by simp
next
  case False
  obtain r' h1 where f: "filter_graph_by_step (the ms) (self, h) = (r', h1)"
    by (cases "filter_graph_by_step (the ms) (self, h)") auto
  have "h' = h1" using assms False f
    by (auto simp: to_graph_snapshot_def Let_def split: if_splits sum.splits)
  then show ?thesis using f by blast
qed

lemma built_model_built: "built_model st \<Longrightarrow> \<exists>g. built st g"
proof (induction rule: built_model.induct)
  case (after_build msgs self0 h0 g self h)
  from build_graph_built[OF after_build] show ?case by blast
next
  case (after_filter self h k r h')
  then show ?case using built_filter by blast
next
  case (after_snapshot self h ms r h')
  then obtain g where g: "built (self, h) g" by blast
  from to_graph_snapshot_heap[OF after_snapshot(2)] show ?case
    using g built_filter by blast
qed

lemma built_state_model:
  assumes "\<not> isl (fst (build_graph msgs (GraphBuilder_init, [])))"
  shows "built_model (built_state msgs)"
proof -
  obtain g where g: "fst (build_graph msgs (GraphBuilder_init, [])) = Inr g"
    using assms by (cases "fst (build_graph msgs (GraphBuilder_init, []))") auto
  have "build_graph msgs (GraphBuilder_init, []) =
      (Inr g, fst (built_state msgs), snd (built_state msgs))"
    using g by (simp add: built_state_def prod_eq_iff)
  from after_build[OF this] show ?thesis by simp
qed

lemma scenario_A_model:
  "built_model (fst (built_state scenario_A), snd (built_state scenario_A))"
proof -
  have "\<not> isl (fst (build_graph scenario_A (GraphBuilder_init, [])))" by code_simp
  from built_state_model[OF this] show ?thesis by simp
qed

lemma scenario_A_graph:
  "graph (fst (built_state scenario_A)) = Some (the (graph (fst (built_state scenario_A))))"
  by code_simp

section \<open>Building\<close>




text \<open>
  C10: the intent that \<open>_infer_intent\<close> gives a message is one of delegation, coordination,
  information_response, feedback and unknown, never information_request; so is the intent of
  every interaction on every edge of a built model.
\<close>

theorem intent_never_information_request:
  "infer_intent m \<in> {INTENT_DELEGATION, COORDINATION, INFORMATION_RESPONSE, FEEDBACK, UNKNOWN} \<and>
   infer_intent m \<noteq> INFORMATION_REQUEST \<and>
   (built_model (self, h) \<longrightarrow> graph self = Some g \<longrightarrow>
      (\<forall>e \<in> set (convert_edges h g). \<forall>i \<in> set (interactions e).
          intent i \<in> {INTENT_DELEGATION, COORDINATION, INFORMATION_RESPONSE, FEEDBACK, UNKNOWN} \<and>
          intent i \<noteq> INFORMATION_REQUEST))"
proof -
  have a: "infer_intent m \<in> produced_intents" by (rule infer_intent_produced)
  have b: "intent i \<in> produced_intents"
    if bm: "built_model (self, h)" and gr: "graph self = Some g"
      and e: "e \<in> set (convert_edges h g)" and i: "i \<in> set (interactions e)" for e i
  proof -
    obtain g' where "built (self, h) g'" using built_model_built[OF bm] by blast
    then have ho: "heap_ok h g" using gr by (simp add: built_def)
    obtain u v d where d: "(u, v, d) \<in> set (nx_edges g)"
      and ed: "e = \<lparr>source = e_source d, target = e_target d,
                    interactions = h ! e_interactions d, weight = e_weight d\<rparr>"
      using e by (auto simp: convert_edges_def)
    have "edge_ok h (u, v, d)" by (rule heap_ok_edge[OF ho d])
    then show ?thesis using i by (simp add: edge_ok_def ed)
  qed
  have set_eq: "produced_intents =
      {INTENT_DELEGATION, COORDINATION, INFORMATION_RESPONSE, FEEDBACK, UNKNOWN}"
    by (simp add: produced_intents_def)
  have no_req: "x \<noteq> INFORMATION_REQUEST" if "x \<in> produced_intents" for x
    using that by (auto simp: produced_intents_def)
  have c1: "infer_intent m \<in> {INTENT_DELEGATION, COORDINATION, INFORMATION_RESPONSE, FEEDBACK, UNKNOWN}"
    using a unfolding set_eq .
  have c2: "infer_intent m \<noteq> INFORMATION_REQUEST" by (rule no_req[OF a])
  have c3: "intent i \<in> {INTENT_DELEGATION, COORDINATION, INFORMATION_RESPONSE, FEEDBACK, UNKNOWN} \<and>
            intent i \<noteq> INFORMATION_REQUEST"
    if "built_model (self, h)" "graph self = Some g"
      "e \<in> set (convert_edges h g)" "i \<in> set (interactions e)" for e i
    using b[OF that] no_req[OF b[OF that]] unfolding set_eq by simp
  show ?thesis using c1 c2 c3 by blast
qed

theorem intent_never_information_request_witness:
  "built_model (built_state scenario_A) \<and>
   map (\<lambda>e. map intent (interactions e))
     (convert_edges (snd (built_state scenario_A)) (the (graph (fst (built_state scenario_A))))) =
     [[INTENT_DELEGATION], [INTENT_DELEGATION], [INFORMATION_RESPONSE, INFORMATION_RESPONSE]] \<and>
   INFORMATION_REQUEST \<notin>
     (\<Union>e \<in> set (convert_edges (snd (built_state scenario_A))
                    (the (graph (fst (built_state scenario_A))))).
        intent ` set (interactions e))"
proof -
  have ne: "scenario_A \<noteq> []" by (simp add: scenario_A_def)
  have bm: "built_model (fst (built_state scenario_A), snd (built_state scenario_A))"
    by (rule scenario_A_model)
  have gr: "graph (fst (built_state scenario_A)) = Some (the (graph (fst (built_state scenario_A))))"
    by code_simp
  have ev: "map (\<lambda>e. map intent (interactions e))
     (convert_edges (snd (built_state scenario_A)) (the (graph (fst (built_state scenario_A))))) =
     [[INTENT_DELEGATION], [INTENT_DELEGATION], [INFORMATION_RESPONSE, INFORMATION_RESPONSE]]"
    by code_simp
  have all: "\<forall>e \<in> set (convert_edges (snd (built_state scenario_A))
                  (the (graph (fst (built_state scenario_A))))).
      \<forall>i \<in> set (interactions e). intent i \<noteq> INFORMATION_REQUEST"
    using intent_never_information_request[of _ "fst (built_state scenario_A)"
        "snd (built_state scenario_A)" "the (graph (fst (built_state scenario_A)))"] bm gr
    by blast
  have none: "INFORMATION_REQUEST \<notin>
     (\<Union>e \<in> set (convert_edges (snd (built_state scenario_A))
                    (the (graph (fst (built_state scenario_A))))).
        intent ` set (interactions e))"
    using all by force
  show ?thesis using bm ev none by simp
qed

section \<open>Filtering by step\<close>

lemma edge_list_view:
  "edge_list h g = map (\<lambda>(u, v, e). (u, v, interactions e)) (edge_view h g)"
  by (simp add: edge_list_def edge_view_def edge_data_def o_def split_def)

lemma edge_keys_list: "edge_keys g = map (\<lambda>(u, v, is). (u, v)) (edge_list h g)"
  by (simp add: edge_keys_def edge_list_def o_def split_def)

lemma edge_view_extend:
  assumes "refs_below (length h) g" "take (length h) h' = h"
  shows "edge_view h' g = edge_view h g"
proof -
  have nth: "h' ! r = h ! r" if "r < length h" for r
    using nth_take[OF that, of h'] assms(2) by simp
  show ?thesis
    unfolding edge_view_def
    by (rule map_cong[OF refl]) (use assms(1) nth in \<open>auto simp: refs_below_def edge_data_def\<close>)
qed

lemma convert_edges_view: "convert_edges h g = map (\<lambda>(u, v, e). e) (edge_view h g)"
  by (simp add: convert_edges_def edge_view_def edge_data_def o_def split_def)

lemma filter_from_built:
  assumes "built (self, h) g"
  shows "\<exists>view h'. filter_graph_by_step k (self, h) = (Inr view, h')
      \<and> edge_view h' view =
          filter (\<lambda>(u, v, e). interactions e \<noteq> [])
            (map (\<lambda>(u, v, e). (u, v, restrict_edge k e)) (edge_view h g))
      \<and> nx_nodes view = filter (\<lambda>n. \<exists>(u, v) \<in> set (edge_keys view). u = n \<or> v = n) (nx_nodes g)
      \<and> take (length h) h' = h \<and> edge_view h' g = edge_view h g \<and> built (self, h') g"
proof -
  have gr: "graph self = Some g" and ne: "g \<noteq> []" and wf: "wf_graph h g"
    using assms by (simp_all add: built_def)
  from filter_graph_by_step_view[OF gr ne wf, of k]
  obtain view h' where r: "filter_graph_by_step k (self, h) = (Inr view, h')"
    and ev: "edge_view h' view =
          filter (\<lambda>(u, v, e). interactions e \<noteq> [])
            (map (\<lambda>(u, v, e). (u, v, restrict_edge k e)) (edge_view h g))"
    and nv: "nx_nodes view = filter (\<lambda>n. \<exists>(u, v) \<in> set (edge_keys view). u = n \<or> v = n) (nx_nodes g)"
    and tk: "take (length h) h' = h" and le: "length h \<le> length h'"
    by blast
  have rb: "refs_below (length h) g" using wf by (simp add: wf_graph_def)
  have same: "edge_view h' g = edge_view h g" by (rule edge_view_extend[OF rb tk])
  have b': "built (self, h') g" by (rule built_extend[OF assms tk le])
  show ?thesis using r ev nv tk same b' by blast
qed

lemma restrict_then_project:
  "map (\<lambda>(u, v, e). (u, v, interactions e))
     (filter (\<lambda>(u, v, e). interactions e \<noteq> [])
        (map (\<lambda>(u, v, e). (u, v, restrict_edge k e)) xs)) =
   filter (\<lambda>(u, v, is). is \<noteq> [])
     (map (\<lambda>(u, v, is). (u, v, upto_step k is)) (map (\<lambda>(u, v, e). (u, v, interactions e)) xs))"
  by (induction xs) (auto simp: restrict_edge_def)

lemma edge_list_filtered:
  assumes "edge_view h' view =
          filter (\<lambda>(u, v, e). interactions e \<noteq> [])
            (map (\<lambda>(u, v, e). (u, v, restrict_edge k e)) (edge_view h g))"
  shows "edge_list h' view =
          filter (\<lambda>(u, v, is). is \<noteq> [])
            (map (\<lambda>(u, v, is). (u, v, upto_step k is)) (edge_list h g))"
proof -
  have "edge_list h' view = map (\<lambda>(u, v, e). (u, v, interactions e))
          (filter (\<lambda>(u, v, e). interactions e \<noteq> [])
            (map (\<lambda>(u, v, e). (u, v, restrict_edge k e)) (edge_view h g)))"
    by (simp add: edge_list_view assms)
  also have "\<dots> = filter (\<lambda>(u, v, is). is \<noteq> [])
            (map (\<lambda>(u, v, is). (u, v, upto_step k is)) (edge_list h g))"
    unfolding edge_list_view by (rule restrict_then_project)
  finally show ?thesis .
qed

lemma built_of_model:
  assumes "built_model (self, h)" "graph self = Some g"
  shows "built (self, h) g"
proof -
  obtain g' where b: "built (self, h) g'" using built_model_built[OF assms(1)] by blast
  then have "g' = g" using assms(2) by (simp add: built_def)
  then show ?thesis using b by simp
qed

lemma length_filter_mono:
  "(\<And>x. P x \<Longrightarrow> Q x) \<Longrightarrow> length (filter P xs) \<le> length (filter Q xs)"
  by (induction xs) auto

lemma upto_step_mono:
  assumes "k1 \<le> k2"
  shows "length (upto_step k1 xs) \<le> length (upto_step k2 xs)"
  unfolding upto_step_def using assms by (intro length_filter_mono) simp

text \<open>
  C1: for a built model and any bound \<open>k\<close>, \<open>filter_graph_by_step\<close> returns a view whose edges,
  with their interaction sequences, are the edges of the base graph with exactly the
  interactions of \<open>step_index \<le> k\<close>, those left with none being absent; its nodes are the
  nodes of the base graph that have an edge of the view going in or out.
\<close>

theorem filter_graph_by_step_exact:
  assumes "built_model (self, h)" and "graph self = Some g"
  shows "\<exists>view h'. filter_graph_by_step k (self, h) = (Inr view, h')
      \<and> edge_list h' view =
          filter (\<lambda>(u, v, is). is \<noteq> [])
            (map (\<lambda>(u, v, is). (u, v, filter (\<lambda>i. i_step_index i \<le> k) is)) (edge_list h g))
      \<and> nx_nodes view = filter (\<lambda>n. \<exists>(u, v) \<in> set (edge_keys view). u = n \<or> v = n) (nx_nodes g)"
proof -
  have b: "built (self, h) g" by (rule built_of_model[OF assms])
  from filter_from_built[OF b, of k]
  obtain view h' where r: "filter_graph_by_step k (self, h) = (Inr view, h')"
    and ev: "edge_view h' view =
          filter (\<lambda>(u, v, e). interactions e \<noteq> [])
            (map (\<lambda>(u, v, e). (u, v, restrict_edge k e)) (edge_view h g))"
    and nv: "nx_nodes view = filter (\<lambda>n. \<exists>(u, v) \<in> set (edge_keys view). u = n \<or> v = n) (nx_nodes g)"
    by blast
  have "edge_list h' view =
          filter (\<lambda>(u, v, is). is \<noteq> [])
            (map (\<lambda>(u, v, is). (u, v, filter (\<lambda>i. i_step_index i \<le> k) is)) (edge_list h g))"
    using edge_list_filtered[OF ev] by (simp add: upto_step_def)
  then show ?thesis using r nv by blast
qed

theorem filter_graph_by_step_exact_witness:
  "built_model (built_state scenario_A)
   \<and> graph (fst (built_state scenario_A)) = Some (the (graph (fst (built_state scenario_A))))
   \<and> (\<exists>view h'. filter_graph_by_step 1 (built_state scenario_A) = (Inr view, h')
      \<and> edge_list h' view =
          filter (\<lambda>(u, v, is). is \<noteq> [])
            (map (\<lambda>(u, v, is). (u, v, filter (\<lambda>i. i_step_index i \<le> 1) is))
               (edge_list (snd (built_state scenario_A)) (the (graph (fst (built_state scenario_A))))))
      \<and> nx_nodes view = filter (\<lambda>n. \<exists>(u, v) \<in> set (edge_keys view). u = n \<or> v = n)
                           (nx_nodes (the (graph (fst (built_state scenario_A))))))
   \<and> nx_nodes (projr (fst (filter_graph_by_step 1 (built_state scenario_A)))) = [''A'', ''B'']
   \<and> map (\<lambda>(u, v, is). (u, v, map i_step_index is))
        (edge_list (snd (filter_graph_by_step 1 (built_state scenario_A)))
           (projr (fst (filter_graph_by_step 1 (built_state scenario_A))))) =
      [(''A'', ''B'', [0]), (''B'', ''A'', [1])]"
proof -
  have ne: "scenario_A \<noteq> []" by (simp add: scenario_A_def)
  have bm: "built_model (fst (built_state scenario_A), snd (built_state scenario_A))"
    by (rule scenario_A_model)
  have gr: "graph (fst (built_state scenario_A)) = Some (the (graph (fst (built_state scenario_A))))"
    by code_simp
  have n: "nx_nodes (projr (fst (filter_graph_by_step 1 (built_state scenario_A)))) = [''A'', ''B'']"
    by code_simp
  have e: "map (\<lambda>(u, v, is). (u, v, map i_step_index is))
        (edge_list (snd (filter_graph_by_step 1 (built_state scenario_A)))
           (projr (fst (filter_graph_by_step 1 (built_state scenario_A))))) =
      [(''A'', ''B'', [0]), (''B'', ''A'', [1])]"
    by code_simp
  show ?thesis
    using filter_graph_by_step_exact[OF bm gr, of 1] bm gr n e by simp
qed

text \<open>
  C2: for a built model and bounds \<open>k1 \<le> k2\<close>, the view at \<open>k1\<close> and the view of a later call at
  \<open>k2\<close> satisfy: the nodes and the edges at \<open>k1\<close> are among those at \<open>k2\<close>, and every edge
  at \<open>k1\<close> has at most as many interactions as it has at \<open>k2\<close>.
\<close>

theorem filter_graph_by_step_monotone:
  assumes bm: "built_model (self, h)" and gr: "graph self = Some g" and le: "k1 \<le> k2"
    and f1: "filter_graph_by_step k1 (self, h) = (Inr v1, h1)"
    and f2: "filter_graph_by_step k2 (self, h1) = (Inr v2, h2)"
  shows "set (nx_nodes v1) \<subseteq> set (nx_nodes v2) \<and> set (edge_keys v1) \<subseteq> set (edge_keys v2)
       \<and> (\<forall>(u, v, is1) \<in> set (edge_list h1 v1).
             \<exists>is2. (u, v, is2) \<in> set (edge_list h2 v2) \<and> length is1 \<le> length is2)"
proof -
  have b: "built (self, h) g" by (rule built_of_model[OF bm gr])
  from filter_from_built[OF b, of k1] f1
  have ev1: "edge_view h1 v1 =
          filter (\<lambda>(u, v, e). interactions e \<noteq> [])
            (map (\<lambda>(u, v, e). (u, v, restrict_edge k1 e)) (edge_view h g))"
    and nv1: "nx_nodes v1 = filter (\<lambda>n. \<exists>(u, v) \<in> set (edge_keys v1). u = n \<or> v = n) (nx_nodes g)"
    and same: "edge_view h1 g = edge_view h g" and b1: "built (self, h1) g"
    by auto
  from filter_from_built[OF b1, of k2] f2
  have ev2: "edge_view h2 v2 =
          filter (\<lambda>(u, v, e). interactions e \<noteq> [])
            (map (\<lambda>(u, v, e). (u, v, restrict_edge k2 e)) (edge_view h1 g))"
    and nv2: "nx_nodes v2 = filter (\<lambda>n. \<exists>(u, v) \<in> set (edge_keys v2). u = n \<or> v = n) (nx_nodes g)"
    by auto
  have same_list: "edge_list h1 g = edge_list h g" by (simp add: edge_list_view same)
  have l1: "edge_list h1 v1 = filter (\<lambda>(u, v, is). is \<noteq> [])
            (map (\<lambda>(u, v, is). (u, v, upto_step k1 is)) (edge_list h g))"
    by (rule edge_list_filtered[OF ev1])
  have l2: "edge_list h2 v2 = filter (\<lambda>(u, v, is). is \<noteq> [])
            (map (\<lambda>(u, v, is). (u, v, upto_step k2 is)) (edge_list h g))"
    using edge_list_filtered[OF ev2] same_list by simp
  have edge: "\<exists>is2. (u, v, is2) \<in> set (edge_list h2 v2) \<and> length is1 \<le> length is2"
    if "(u, v, is1) \<in> set (edge_list h1 v1)" for u v is1
  proof -
    from that obtain xs where base: "(u, v, xs) \<in> set (edge_list h g)"
      and is1: "is1 = upto_step k1 xs" and ne1: "upto_step k1 xs \<noteq> []"
      unfolding l1 by auto
    have len: "length (upto_step k1 xs) \<le> length (upto_step k2 xs)" by (rule upto_step_mono[OF le])
    then have ne2: "upto_step k2 xs \<noteq> []" using ne1 by auto
    have "(u, v, upto_step k2 xs) \<in> set (edge_list h2 v2)"
      unfolding l2 using base ne2 by force
    then show ?thesis using len is1 by blast
  qed
  have keys: "set (edge_keys v1) \<subseteq> set (edge_keys v2)"
  proof
    fix x assume "x \<in> set (edge_keys v1)"
    then obtain u v is1 where x: "x = (u, v)" and "(u, v, is1) \<in> set (edge_list h1 v1)"
      unfolding edge_keys_list[of v1 h1] by auto
    then obtain is2 where "(u, v, is2) \<in> set (edge_list h2 v2)" using edge by blast
    then show "x \<in> set (edge_keys v2)" unfolding edge_keys_list[of v2 h2] x by force
  qed
  have nodes: "set (nx_nodes v1) \<subseteq> set (nx_nodes v2)"
  proof
    fix n assume "n \<in> set (nx_nodes v1)"
    then have "n \<in> set (filter (\<lambda>n. \<exists>(u, v) \<in> set (edge_keys v1). u = n \<or> v = n) (nx_nodes g))"
      using nv1 by simp
    then have ng: "n \<in> set (nx_nodes g)"
      and inc: "\<exists>(u, v) \<in> set (edge_keys v1). u = n \<or> v = n"
      by simp_all
    have "\<exists>(u, v) \<in> set (edge_keys v2). u = n \<or> v = n" using inc keys by blast
    then show "n \<in> set (nx_nodes v2)"
      using ng by (subst nv2) simp
  qed
  show ?thesis using nodes keys edge by blast
qed

text \<open>
  C5: on every edge of the base graph of a built model, and on every edge of every view
  that \<open>filter_graph_by_step\<close> returns, the cached weight is the length of the list of
  interactions.
\<close>

theorem weight_is_interaction_count:
  assumes bm: "built_model (self, h)" and gr: "graph self = Some g"
  shows "(\<forall>(u, v, d) \<in> set (nx_edges g). e_weight d = int (length (h ! e_interactions d)))
       \<and> (\<forall>k view h'. filter_graph_by_step k (self, h) = (Inr view, h') \<longrightarrow>
             (\<forall>(u, v, d) \<in> set (nx_edges view). e_weight d = int (length (h' ! e_interactions d))))"
proof -
  have b: "built (self, h) g" by (rule built_of_model[OF bm gr])
  have base: "e_weight d = int (length (h ! e_interactions d))"
    if "(u, v, d) \<in> set (nx_edges g)" for u v d
    using b heap_ok_edge[OF _ that, of h] by (simp add: built_def edge_ok_def)
  have view: "e_weight d = int (length (h' ! e_interactions d))"
    if f: "filter_graph_by_step k (self, h) = (Inr view, h')"
      and d: "(u, v, d) \<in> set (nx_edges view)" for k view h' u v d
  proof -
    from filter_from_built[OF b, of k] f
    have ev: "edge_view h' view =
          filter (\<lambda>(u, v, e). interactions e \<noteq> [])
            (map (\<lambda>(u, v, e). (u, v, restrict_edge k e)) (edge_view h g))"
      by auto
    have "(u, v, edge_data h' d) \<in> set (edge_view h' view)"
      using d by (force simp: edge_view_def)
    then obtain e0 where "edge_data h' d = restrict_edge k e0"
      unfolding ev by auto
    then have "weight (edge_data h' d) = int (length (interactions (edge_data h' d)))"
      by (simp add: restrict_edge_def)
    then show ?thesis by (simp add: edge_data_def)
  qed
  show ?thesis using base view by blast
qed

text \<open>
  C9: \<open>filter_graph_by_step\<close> returns no builder, as it assigns none of its fields; what it
  could change of the base graph is the list objects its edges share with the copy. After
  the call every list that existed before is as it was, so every base edge reads the same
  interactions and the same weight, and the model is still a built model.
\<close>

theorem filter_graph_by_step_frame:
  assumes bm: "built_model (self, h)" and gr: "graph self = Some g"
    and f: "filter_graph_by_step k (self, h) = (r, h')"
  shows "take (length h) h' = h \<and> convert_edges h' g = convert_edges h g
       \<and> edge_list h' g = edge_list h g \<and> built_model (self, h')"
proof -
  have b: "built (self, h) g" by (rule built_of_model[OF bm gr])
  from filter_from_built[OF b, of k] f
  have tk: "take (length h) h' = h" and same: "edge_view h' g = edge_view h g"
    by auto
  have "built_model (self, h')" by (rule after_filter[OF bm f])
  then show ?thesis using tk same by (simp add: convert_edges_view edge_list_view)
qed

theorem filter_graph_by_step_monotone_witness:
  "built_model (built_state scenario_A)
   \<and> (0::int) \<le> 1
   \<and> filter_graph_by_step 0 (built_state scenario_A) =
       (Inr (projr (fst (filter_graph_by_step 0 (built_state scenario_A)))),
        snd (filter_graph_by_step 0 (built_state scenario_A)))
   \<and> filter_graph_by_step 1
        (fst (built_state scenario_A), snd (filter_graph_by_step 0 (built_state scenario_A))) =
       (Inr (projr (fst (filter_graph_by_step 1
          (fst (built_state scenario_A), snd (filter_graph_by_step 0 (built_state scenario_A)))))),
        snd (filter_graph_by_step 1
          (fst (built_state scenario_A), snd (filter_graph_by_step 0 (built_state scenario_A)))))
   \<and> set (nx_nodes (projr (fst (filter_graph_by_step 0 (built_state scenario_A)))))
       \<subseteq> set (nx_nodes (projr (fst (filter_graph_by_step 1
          (fst (built_state scenario_A), snd (filter_graph_by_step 0 (built_state scenario_A)))))))
   \<and> set (edge_keys (projr (fst (filter_graph_by_step 0 (built_state scenario_A)))))
       \<subseteq> set (edge_keys (projr (fst (filter_graph_by_step 1
          (fst (built_state scenario_A), snd (filter_graph_by_step 0 (built_state scenario_A)))))))
   \<and> edge_keys (projr (fst (filter_graph_by_step 0 (built_state scenario_A)))) = [(''A'', ''B'')]
   \<and> edge_keys (projr (fst (filter_graph_by_step 1
          (fst (built_state scenario_A), snd (filter_graph_by_step 0 (built_state scenario_A))))))
       = [(''A'', ''B''), (''B'', ''A'')]"
proof -
  have f1: "filter_graph_by_step 0 (fst (built_state scenario_A), snd (built_state scenario_A)) =
       (Inr (projr (fst (filter_graph_by_step 0 (built_state scenario_A)))),
        snd (filter_graph_by_step 0 (built_state scenario_A)))"
    by code_simp
  have f2: "filter_graph_by_step 1
        (fst (built_state scenario_A), snd (filter_graph_by_step 0 (built_state scenario_A))) =
       (Inr (projr (fst (filter_graph_by_step 1
          (fst (built_state scenario_A), snd (filter_graph_by_step 0 (built_state scenario_A)))))),
        snd (filter_graph_by_step 1
          (fst (built_state scenario_A), snd (filter_graph_by_step 0 (built_state scenario_A)))))"
    by code_simp
  have k1: "edge_keys (projr (fst (filter_graph_by_step 0 (built_state scenario_A)))) = [(''A'', ''B'')]"
    by code_simp
  have k2: "edge_keys (projr (fst (filter_graph_by_step 1
          (fst (built_state scenario_A), snd (filter_graph_by_step 0 (built_state scenario_A))))))
       = [(''A'', ''B''), (''B'', ''A'')]"
    by code_simp
  have le: "(0::int) \<le> 1" by simp
  note M = filter_graph_by_step_monotone[OF scenario_A_model scenario_A_graph le f1 f2]
  have bm: "built_model (built_state scenario_A)" using scenario_A_model by simp
  have f1': "filter_graph_by_step 0 (built_state scenario_A) =
       (Inr (projr (fst (filter_graph_by_step 0 (built_state scenario_A)))),
        snd (filter_graph_by_step 0 (built_state scenario_A)))"
    using f1 by simp
  from M have m1: "set (nx_nodes (projr (fst (filter_graph_by_step 0 (built_state scenario_A)))))
       \<subseteq> set (nx_nodes (projr (fst (filter_graph_by_step 1
          (fst (built_state scenario_A), snd (filter_graph_by_step 0 (built_state scenario_A)))))))"
    by blast
  from M have m2: "set (edge_keys (projr (fst (filter_graph_by_step 0 (built_state scenario_A)))))
       \<subseteq> set (edge_keys (projr (fst (filter_graph_by_step 1
          (fst (built_state scenario_A), snd (filter_graph_by_step 0 (built_state scenario_A)))))))"
    by blast
  show ?thesis
    by (intro conjI bm le f1' f2 m1 m2 k1 k2)
qed

theorem weight_is_interaction_count_witness:
  "built_model (built_state scenario_A)
   \<and> map (\<lambda>(u, v, d). (e_weight d, int (length (snd (built_state scenario_A) ! e_interactions d))))
        (nx_edges (the (graph (fst (built_state scenario_A))))) = [(1, 1), (1, 1), (2, 2)]
   \<and> list_all (\<lambda>(u, v, d). e_weight d = int (length (snd (built_state scenario_A) ! e_interactions d)))
        (nx_edges (the (graph (fst (built_state scenario_A)))))
   \<and> list_all (\<lambda>(u, v, d). e_weight d =
          int (length (snd (filter_graph_by_step 1 (built_state scenario_A)) ! e_interactions d)))
        (nx_edges (projr (fst (filter_graph_by_step 1 (built_state scenario_A)))))
   \<and> map (\<lambda>(u, v, d). e_weight d)
        (nx_edges (projr (fst (filter_graph_by_step 1 (built_state scenario_A))))) = [1, 1]"
proof -
  note W = weight_is_interaction_count[OF scenario_A_model scenario_A_graph]
  have f1: "filter_graph_by_step 1 (fst (built_state scenario_A), snd (built_state scenario_A)) =
       (Inr (projr (fst (filter_graph_by_step 1 (built_state scenario_A)))),
        snd (filter_graph_by_step 1 (built_state scenario_A)))"
    by code_simp
  have bm: "built_model (built_state scenario_A)" using scenario_A_model by simp
  have e1: "map (\<lambda>(u, v, d). (e_weight d, int (length (snd (built_state scenario_A) ! e_interactions d))))
        (nx_edges (the (graph (fst (built_state scenario_A))))) = [(1, 1), (1, 1), (2, 2)]"
    by code_simp
  have e2: "map (\<lambda>(u, v, d). e_weight d)
        (nx_edges (projr (fst (filter_graph_by_step 1 (built_state scenario_A))))) = [1, 1]"
    by code_simp
  from W have w1: "list_all (\<lambda>(u, v, d). e_weight d = int (length (snd (built_state scenario_A) ! e_interactions d)))
        (nx_edges (the (graph (fst (built_state scenario_A)))))"
    unfolding list_all_iff by blast
  from W f1 have w2: "list_all (\<lambda>(u, v, d). e_weight d =
          int (length (snd (filter_graph_by_step 1 (built_state scenario_A)) ! e_interactions d)))
        (nx_edges (projr (fst (filter_graph_by_step 1 (built_state scenario_A)))))"
    unfolding list_all_iff by blast
  show ?thesis by (intro conjI bm e1 w1 w2 e2)
qed

theorem filter_graph_by_step_frame_witness:
  "built_model (built_state scenario_A)
   \<and> take (length (snd (built_state scenario_A))) (snd (filter_graph_by_step 1 (built_state scenario_A)))
       = snd (built_state scenario_A)
   \<and> convert_edges (snd (filter_graph_by_step 1 (built_state scenario_A)))
         (the (graph (fst (built_state scenario_A))))
       = convert_edges (snd (built_state scenario_A)) (the (graph (fst (built_state scenario_A))))
   \<and> map weight (convert_edges (snd (filter_graph_by_step 1 (built_state scenario_A)))
         (the (graph (fst (built_state scenario_A))))) = [1, 1, 2]
   \<and> length (snd (built_state scenario_A)) = 3
   \<and> length (snd (filter_graph_by_step 1 (built_state scenario_A))) = 6"
proof -
  have f: "filter_graph_by_step 1 (fst (built_state scenario_A), snd (built_state scenario_A)) =
       (fst (filter_graph_by_step 1 (built_state scenario_A)),
        snd (filter_graph_by_step 1 (built_state scenario_A)))"
    by simp
  note F = filter_graph_by_step_frame[OF scenario_A_model scenario_A_graph f]
  have bm: "built_model (built_state scenario_A)" using scenario_A_model by simp
  have w: "map weight (convert_edges (snd (filter_graph_by_step 1 (built_state scenario_A)))
         (the (graph (fst (built_state scenario_A))))) = [1, 1, 2]"
    by code_simp
  have l1: "length (snd (built_state scenario_A)) = 3" by code_simp
  have l2: "length (snd (filter_graph_by_step 1 (built_state scenario_A))) = 6" by code_simp
  from F have t: "take (length (snd (built_state scenario_A)))
        (snd (filter_graph_by_step 1 (built_state scenario_A))) = snd (built_state scenario_A)"
    by blast
  from F have c: "convert_edges (snd (filter_graph_by_step 1 (built_state scenario_A)))
         (the (graph (fst (built_state scenario_A))))
       = convert_edges (snd (built_state scenario_A)) (the (graph (fst (built_state scenario_A))))"
    by blast
  show ?thesis by (intro conjI bm t c w l1 l2)
qed

section \<open>Snapshots and metrics\<close>

lemma node_attrs_set_edge [simp]: "node_attrs (nx_set_edge u v d g) = node_attrs g"
  by (induction g) (auto simp: nx_set_edge_def node_attrs_def)

lemma node_attrs_remove_edge [simp]: "node_attrs (nx_remove_edge u v g) = node_attrs g"
  by (induction g) (auto simp: nx_remove_edge_def node_attrs_def)

lemma node_attrs_remove_edges [simp]:
  "node_attrs (fold (\<lambda>(u, v). nx_remove_edge u v) rm g) = node_attrs g"
  by (induction rm arbitrary: g) auto

lemma node_attrs_remove_node: "set (node_attrs (nx_remove_node n g)) \<subseteq> set (node_attrs g)"
  by (force simp: nx_remove_node_def node_attrs_def)

lemma node_attrs_remove_nodes_from:
  "set (node_attrs (nx_remove_nodes_from ns g)) \<subseteq> set (node_attrs g)"
proof (induction ns arbitrary: g)
  case Nil
  show ?case by (simp add: nx_remove_nodes_from_def)
next
  case (Cons n ns)
  have "set (node_attrs (nx_remove_nodes_from ns (nx_remove_node n g)))
          \<subseteq> set (node_attrs (nx_remove_node n g))"
    by (rule Cons.IH)
  then show ?case
    using node_attrs_remove_node[of n g] by (auto simp: nx_remove_nodes_from_def)
qed

lemma node_attrs_filter_loop:
  "filter_loop k es (g, h, rm) = (g', h', rm') \<Longrightarrow> node_attrs g' = node_attrs g"
proof (induction es arbitrary: g h rm)
  case Nil
  then show ?case by simp
next
  case (Cons x es)
  obtain u v d where x: "x = (u, v, d)" by (cases x)
  show ?case
    using Cons.prems Cons.IH
    by (auto simp: x Let_def split: if_splits)
qed

lemma filter_graph_by_step_attrs:
  assumes "filter_graph_by_step k (self, h) = (Inr view, h')" "graph self = Some g"
  shows "set (node_attrs view) \<subseteq> set (node_attrs g)"
proof -
  obtain g1 h1 rm where loop: "filter_loop k (nx_edges g) (g, h, []) = (g1, h1, rm)"
    by (cases "filter_loop k (nx_edges g) (g, h, [])") auto
  define g2 where "g2 = fold (\<lambda>(u, v). nx_remove_edge u v) rm g1"
  have "view = nx_remove_nodes_from (nx_isolates g2) g2"
    using assms loop
    by (auto simp: filter_graph_by_step_def nx_copy_def Let_def g2_def split: if_splits)
  moreover have "node_attrs g2 = node_attrs g"
    using node_attrs_filter_loop[OF loop] by (simp add: g2_def)
  ultimately show ?thesis using node_attrs_remove_nodes_from[of "nx_isolates g2" g2] by simp
qed

lemma attrs_ok_subset: "set (node_attrs g') \<subseteq> set (node_attrs g) \<Longrightarrow> attrs_ok g \<Longrightarrow> attrs_ok g'"
  by (auto simp: attrs_ok_def)

lemma node_attrs_update:
  "node_attrs (nx_update_node_attrs n md g) =
     map (\<lambda>(k, a). if k = n then (k, Some md) else (k, a)) (node_attrs g)"
  by (induction g) (auto simp: nx_update_node_attrs_def node_attrs_def)

lemma attach_node_metadata_attrs:
  assumes "attach_node_metadata nm g = (None, g')" "(n, None) \<in> set (node_attrs g')"
  shows "n \<notin> set (map fst nm) \<and> (n, None) \<in> set (node_attrs g)"
  using assms
proof (induction nm arbitrary: g)
  case Nil
  then show ?case by simp
next
  case (Cons x nm)
  obtain nid md where x: "x = (nid, md)" by (cases x)
  have has: "nx_has_node g nid" using Cons.prems(1) by (auto simp: x split: if_splits)
  then have rest: "attach_node_metadata nm (nx_update_node_attrs nid md g) = (None, g')"
    using Cons.prems(1) by (simp add: x)
  from Cons.IH[OF rest Cons.prems(2)]
  have a: "n \<notin> set (map fst nm)"
    and b: "(n, None) \<in> set (node_attrs (nx_update_node_attrs nid md g))" by simp_all
  from b have "n \<noteq> nid \<and> (n, None) \<in> set (node_attrs g)"
    unfolding node_attrs_update by (auto split: if_splits)
  then show ?case using a by (simp add: x)
qed

lemma nx_nodes_node_attrs: "nx_nodes g = map fst (node_attrs g)"
  by (simp add: nx_nodes_def node_attrs_def o_def split_def)

lemma build_graph_attrs:
  assumes "build_graph msgs (self0, h0) = (Inr g, self, h)"
  shows "attrs_ok g"
proof -
  define ms where "ms = sort_key step_index msgs"
  have ne: "msgs \<noteq> []" using assms by (auto simp: build_graph_def)
  obtain err nm g1 h1 where f: "build_loop ms ([], [], h0) = (err, nm, g1, h1)"
    by (cases "build_loop ms ([], [], h0)") auto
  have err: "err = None"
    using assms ne f by (cases err) (auto simp: build_graph_def ms_def[symmetric] Let_def)
  have inv0: "build_inv ([], [], h0)"
    by (simp add: build_inv_def struct_ok_def heap_ok_def nx_nodes_def)
  have inv: "build_inv (nm, g1, h1)" using build_loop_inv[OF inv0 f] by simp
  have keys: "set (map fst nm) = set (nx_nodes g1)" using inv by (simp add: build_inv_def)
  obtain g2 where at: "attach_node_metadata nm g1 = (None, g2)"
    and n2: "nx_nodes g2 = nx_nodes g1"
    using attach_node_metadata_ok[of nm g1] keys by auto
  have g: "g = g2"
    using assms ne f at err by (auto simp: build_graph_def ms_def[symmetric] Let_def)
  have "(n, None) \<notin> set (node_attrs g2)" for n
  proof
    assume a: "(n, None) \<in> set (node_attrs g2)"
    from attach_node_metadata_attrs[OF at a] have "n \<notin> set (map fst nm)" by simp
    moreover have "n \<in> set (nx_nodes g2)" using a unfolding nx_nodes_node_attrs by force
    ultimately show False using keys n2 by simp
  qed
  then show ?thesis unfolding g attrs_ok_def by force
qed

lemma built_model_attrs: "built_model st \<Longrightarrow> graph (fst st) = Some g \<Longrightarrow> attrs_ok g"
proof (induction rule: built_model.induct)
  case (after_build msgs self0 h0 g' self h)
  from build_graph_built[OF after_build(1)] after_build(2) have "g = g'" by simp
  then show ?case using build_graph_attrs[OF after_build(1)] by simp
next
  case (after_filter self h k r h')
  then show ?case by simp
next
  case (after_snapshot self h ms r h')
  then show ?case by simp
qed

lemma convert_nodes_ok:
  "attrs_ok g \<Longrightarrow>
     \<exists>nds. convert_nodes g = Inr nds \<and> length nds = length g
          \<and> map node_id nds = map (\<lambda>(n, a, adj). a_id (the a)) g
          \<and> map message_count nds = map (\<lambda>(n, a, adj). a_message_count (the a)) g
          \<and> list_all (\<lambda>nd. messages_sent nd = 0 \<and> messages_received nd = 0) nds"
proof (induction g)
  case Nil
  show ?case by simp
next
  case (Cons x g)
  obtain n a adj where x: "x = (n, a, adj)" by (cases x)
  have "attrs_ok g" using Cons.prems by (auto simp: attrs_ok_def node_attrs_def)
  from Cons.IH[OF this] obtain nds where r: "convert_nodes g = Inr nds" "length nds = length g"
    "map node_id nds = map (\<lambda>(n, a, adj). a_id (the a)) g"
    "map message_count nds = map (\<lambda>(n, a, adj). a_message_count (the a)) g"
    "list_all (\<lambda>nd. messages_sent nd = 0 \<and> messages_received nd = 0) nds"
    by blast
  have "a \<noteq> None" using Cons.prems by (force simp: attrs_ok_def node_attrs_def x)
  then obtain d where a: "a = Some d" by auto
  show ?case using r by (simp add: x a NodeData_of_def)
qed

lemma to_graph_snapshot_filtered:
  assumes bm: "built_model (self, h)" and gr: "graph self = Some g" and k: "k \<noteq> 0"
  shows "\<exists>view h' nds. filter_graph_by_step k (self, h) = (Inr view, h')
      \<and> convert_nodes view = Inr nds \<and> length nds = length (nx_nodes view)
      \<and> to_graph_snapshot (Some k) (self, h) =
          (Inr \<lparr>nodes = nds, edges = convert_edges h' view, current_step = Some k,
                total_steps = (if messages self \<noteq> []
                               then Max (set (map step_index (messages self))) else 0),
                s_metadata = [(''node_count'', int (length nds)),
                              (''edge_count'', int (length (convert_edges h' view))),
                              (''message_count'', int (length (messages self)))]\<rparr>, h')"
proof -
  have b: "built (self, h) g" by (rule built_of_model[OF bm gr])
  then have ng: "\<not> no_graph self"
    by (simp add: built_def no_graph_def nx_number_of_nodes_def)
  from filter_from_built[OF b, of k]
  obtain view h' where f: "filter_graph_by_step k (self, h) = (Inr view, h')" by blast
  have "attrs_ok g" using built_model_attrs[OF bm] gr by simp
  then have "attrs_ok view"
    using attrs_ok_subset[OF filter_graph_by_step_attrs[OF f gr]] by simp
  from convert_nodes_ok[OF this]
  obtain nds where c: "convert_nodes view = Inr nds" and l: "length nds = length view" by blast
  have l': "length nds = length (nx_nodes view)" using l by (simp add: nx_nodes_def)
  have "to_graph_snapshot (Some k) (self, h) =
          (Inr \<lparr>nodes = nds, edges = convert_edges h' view, current_step = Some k,
                total_steps = (if messages self \<noteq> []
                               then Max (set (map step_index (messages self))) else 0),
                s_metadata = [(''node_count'', int (length nds)),
                              (''edge_count'', int (length (convert_edges h' view))),
                              (''message_count'', int (length (messages self)))]\<rparr>, h')"
    using ng k f c by (simp add: to_graph_snapshot_def truthy_def Let_def)
  then show ?thesis using f c l' by blast
qed

text \<open>
  C7, as the code has it: for a built model and a given bound other than 0, the metadata of
  the snapshot holds the numbers of nodes and of edges of the filtered view, and under
  \<open>message_count\<close> the number of all messages that were given to \<open>build_graph\<close>.
\<close>

theorem snapshot_metadata_counts:
  assumes "msgs \<noteq> []" and "build_graph msgs (self0, h0) = (r, self, hb)"
    and "built_model (self, h)" and "k \<noteq> 0"
  shows "\<exists>view h' s. filter_graph_by_step k (self, h) = (Inr view, h')
      \<and> to_graph_snapshot (Some k) (self, h) = (Inr s, h')
      \<and> s_metadata s = [(''node_count'', int (length (nx_nodes view))),
                         (''edge_count'', int (length (nx_edges view))),
                         (''message_count'', int (length msgs))]"
proof -
  obtain g where "built (self, h) g" using built_model_built[OF assms(3)] by blast
  then have gr: "graph self = Some g" by (simp add: built_def)
  have ms: "length (messages self) = length msgs"
    using build_graph_messages[OF assms(1,2)] by simp
  from to_graph_snapshot_filtered[OF assms(3) gr assms(4)]
  obtain view h' nds where f: "filter_graph_by_step k (self, h) = (Inr view, h')"
    and l: "length nds = length (nx_nodes view)"
    and s: "to_graph_snapshot (Some k) (self, h) =
          (Inr \<lparr>nodes = nds, edges = convert_edges h' view, current_step = Some k,
                total_steps = (if messages self \<noteq> []
                               then Max (set (map step_index (messages self))) else 0),
                s_metadata = [(''node_count'', int (length nds)),
                              (''edge_count'', int (length (convert_edges h' view))),
                              (''message_count'', int (length (messages self)))]\<rparr>, h')"
    by blast
  have le: "length (convert_edges h' view) = length (nx_edges view)"
    by (simp add: convert_edges_def)
  show ?thesis
    using f s l le ms by simp
qed

theorem snapshot_metadata_counts_witness:
  "scenario_A \<noteq> [] \<and> built_model (built_state scenario_A) \<and> (1::int) \<noteq> 0
   \<and> (\<exists>view h' s. filter_graph_by_step 1 (built_state scenario_A) = (Inr view, h')
      \<and> to_graph_snapshot (Some 1) (built_state scenario_A) = (Inr s, h')
      \<and> s_metadata s = [(''node_count'', int (length (nx_nodes view))),
                         (''edge_count'', int (length (nx_edges view))),
                         (''message_count'', int (length scenario_A))])
   \<and> s_metadata (projr (fst (to_graph_snapshot (Some 1) (built_state scenario_A)))) =
       [(''node_count'', 2), (''edge_count'', 2), (''message_count'', 4)]"
proof -
  have ne: "scenario_A \<noteq> []" by (simp add: scenario_A_def)
  have b: "build_graph scenario_A (GraphBuilder_init, []) =
      (fst (build_graph scenario_A (GraphBuilder_init, [])),
       fst (built_state scenario_A), snd (built_state scenario_A))"
    by (simp add: built_state_def)
  have k: "(1::int) \<noteq> 0" by simp
  have ev: "s_metadata (projr (fst (to_graph_snapshot (Some 1) (built_state scenario_A)))) =
       [(''node_count'', 2), (''edge_count'', 2), (''message_count'', 4)]"
    by code_simp
  show ?thesis
    using snapshot_metadata_counts[OF ne b scenario_A_model k] ne scenario_A_model ev by simp
qed

text \<open>
  Scenario A at bound 1: the view has two interactions and the log has two messages of
  \<open>step_index \<le> 1\<close>, and \<open>message_count\<close> is 4.
\<close>

theorem snapshot_message_count_counterexample:
  "s_metadata (projr (fst (to_graph_snapshot (Some 1) (built_state scenario_A)))) =
       [(''node_count'', 2), (''edge_count'', 2), (''message_count'', 4)]
   \<and> length (concat (map interactions
        (edges (projr (fst (to_graph_snapshot (Some 1) (built_state scenario_A))))))) = 2
   \<and> length (messages_upto 1 (messages (fst (built_state scenario_A)))) = 2
   \<and> map_of (s_metadata (projr (fst (to_graph_snapshot (Some 1) (built_state scenario_A)))))
        ''message_count'' \<noteq>
      Some (int (length (messages_upto 1 (messages (fst (built_state scenario_A))))))"
  by code_simp

lemma to_graph_snapshot_unfiltered:
  assumes bm: "built_model (self, h)" and gr: "graph self = Some g"
    and k: "max_step = None \<or> max_step = Some 0"
  shows "\<exists>nds. convert_nodes g = Inr nds
      \<and> to_graph_snapshot max_step (self, h) =
          (Inr \<lparr>nodes = nds, edges = convert_edges h g, current_step = max_step,
                total_steps = (if messages self \<noteq> []
                               then Max (set (map step_index (messages self))) else 0),
                s_metadata = [(''node_count'', int (length nds)),
                              (''edge_count'', int (length (convert_edges h g))),
                              (''message_count'', int (length (messages self)))]\<rparr>, h)"
proof -
  have b: "built (self, h) g" by (rule built_of_model[OF bm gr])
  then have ng: "\<not> no_graph self"
    by (simp add: built_def no_graph_def nx_number_of_nodes_def)
  have nt: "\<not> truthy max_step" using k by (auto simp: truthy_def)
  have "attrs_ok g" using built_model_attrs[OF bm] gr by simp
  from convert_nodes_ok[OF this] obtain nds where c: "convert_nodes g = Inr nds" by blast
  show ?thesis using ng nt c gr by (simp add: to_graph_snapshot_def Let_def)
qed

lemma snapshot_counters_zero:
  assumes bm: "built_model (self, h)" and s: "to_graph_snapshot max_step (self, h) = (Inr s, h')"
  shows "list_all (\<lambda>nd. messages_sent nd = 0 \<and> messages_received nd = 0) (nodes s)"
proof -
  obtain g where b: "built (self, h) g" using built_model_built[OF bm] by blast
  then have gr: "graph self = Some g" by (simp add: built_def)
  have ag: "attrs_ok g" using built_model_attrs[OF bm] gr by simp
  show ?thesis
  proof (cases "max_step = None \<or> max_step = Some 0")
    case True
    from to_graph_snapshot_unfiltered[OF bm gr True] convert_nodes_ok[OF ag] s
    show ?thesis by auto
  next
    case False
    then obtain k where k: "max_step = Some k" "k \<noteq> 0" by auto
    from to_graph_snapshot_filtered[OF bm gr k(2)]
    obtain view h1 nds where f: "filter_graph_by_step k (self, h) = (Inr view, h1)"
      and c: "convert_nodes view = Inr nds" and sn: "nodes s = nds"
      using s k(1) by auto
    have "attrs_ok view"
      using attrs_ok_subset[OF filter_graph_by_step_attrs[OF f gr] ag] .
    from convert_nodes_ok[OF this] c sn show ?thesis by auto
  qed
qed

text \<open>
  C3 at Scenario A with \<open>max_step = 0\<close>: \<open>if max_step\<close> takes 0 as absent, so the snapshot
  holds the whole graph (three nodes, three edges) under \<open>current_step = 0\<close>, where
  \<open>filter_graph_by_step 0\<close> gives the nodes A and B and the one edge from A to B.
\<close>

theorem to_graph_snapshot_step_zero:
  "\<not> isl (fst (to_graph_snapshot (Some 0) (built_state scenario_A)))
   \<and> current_step (projr (fst (to_graph_snapshot (Some 0) (built_state scenario_A)))) = Some 0
   \<and> map node_id (nodes (projr (fst (to_graph_snapshot (Some 0) (built_state scenario_A)))))
       = [''A'', ''B'', ''C'']
   \<and> map (\<lambda>e. (source e, target e, weight e))
        (edges (projr (fst (to_graph_snapshot (Some 0) (built_state scenario_A)))))
       = [(''A'', ''B'', 1), (''A'', ''C'', 1), (''B'', ''A'', 2)]
   \<and> \<not> isl (fst (filter_graph_by_step 0 (built_state scenario_A)))
   \<and> nx_nodes (projr (fst (filter_graph_by_step 0 (built_state scenario_A)))) = [''A'', ''B'']
   \<and> map (\<lambda>e. (source e, target e, weight e))
        (convert_edges (snd (filter_graph_by_step 0 (built_state scenario_A)))
           (projr (fst (filter_graph_by_step 0 (built_state scenario_A)))))
       = [(''A'', ''B'', 1)]"
  by code_simp

text \<open>
  C4 at the log of one message from A to B: the builder counts under \<open>message_count\<close> only,
  so in the snapshot \<open>messages_sent\<close> of A and \<open>messages_received\<close> of B are 0, their default;
  and a message that A sends to itself counts twice under \<open>message_count\<close>.
\<close>

theorem node_counters_never_set:
  "\<not> isl (fst (to_graph_snapshot None (built_state one_message)))
   \<and> map (\<lambda>n. (node_id n, messages_sent n, messages_received n, message_count n))
        (nodes (projr (fst (to_graph_snapshot None (built_state one_message)))))
       = [(''A'', 0, 0, 1), (''B'', 0, 0, 0)]
   \<and> map (\<lambda>n. (node_id n, messages_sent n, messages_received n, message_count n))
        (nodes (projr (fst (to_graph_snapshot None (built_state one_self_message)))))
       = [(''A'', 0, 0, 2)]"
  by code_simp






end
